theory Spec2Isabelle
  imports Main "HOL-Library.Char_ord" "HOL-Library.List_Lexorder"
begin

section \<open>Errors raised by the walker code\<close>

text \<open>
  Every exception the modelled code can raise is a value. \<open>DatasetRecursionError\<close> is the
  exception class of \<^verbatim>\<open>speechbox/dataset/__init__.py\<close>; it carries the directory that was
  seen twice. The others are Python's built-in exceptions.
\<close>

datatype error =
    AssertionError
  | TypeError
  | KeyError string
  | AttributeError
  | IndexError
  | DatasetRecursionError string

section \<open>Strings and paths\<close>

text \<open>Python's \<^verbatim>\<open>str.startswith\<close> and \<^verbatim>\<open>str.endswith\<close>.\<close>

definition startswith :: "string \<Rightarrow> string \<Rightarrow> bool" where
  "startswith s pre = (take (length pre) s = pre)"

definition endswith :: "string \<Rightarrow> string \<Rightarrow> bool" where
  "endswith s suf = (length suf \<le> length s \<and> drop (length s - length suf) s = suf)"

text \<open>
  \<^verbatim>\<open>os.path.join\<close> on a POSIX system: a component that starts with the separator replaces
  what was joined so far; otherwise it is appended, with a separator unless the path so far
  is empty or already ends with one.
\<close>

definition join_step :: "string \<Rightarrow> string \<Rightarrow> string" where
  "join_step path b =
     (if startswith b ''/'' then b
      else if path = [] \<or> endswith path ''/'' then path @ b
      else path @ ''/'' @ b)"

definition path_join :: "string \<Rightarrow> string list \<Rightarrow> string" where
  "path_join a ps = foldl join_step a ps"

text \<open>\<^verbatim>\<open>os.path.basename\<close>: everything after the last separator.\<close>

definition basename :: "string \<Rightarrow> string" where
  "basename p = rev (takeWhile (\<lambda>c. c \<noteq> CHR ''/'') (rev p))"

section \<open>The walker object\<close>

text \<open>
  One entry of \<^verbatim>\<open>self.label_definitions\<close> is a dict with the optional keys
  \<^verbatim>\<open>name\<close>, \<^verbatim>\<open>sample_dirs\<close>, \<^verbatim>\<open>sample_files\<close> and \<^verbatim>\<open>sample_file_checksums\<close>;
  a missing key is \<open>None\<close>.
\<close>

record label_def =
  label_name :: "string option"
  sample_dirs :: "string list option"
  sample_files :: "string list option"
  sample_file_checksums :: "string list option"

text \<open>
  A Python dict with string keys is an association list; \<open>map_of\<close> is the lookup and
  \<open>dict_keys\<close> the keys in insertion order, each once.
\<close>

definition dict_keys :: "(string \<times> 'v) list \<Rightarrow> string list" where
  "dict_keys d = remdups (map fst d)"

text \<open>
  The instance attributes set by \<^verbatim>\<open>SpeechDatasetWalker.__init__\<close>, together with the two
  members a subclass supplies: the method \<^verbatim>\<open>parse_speaker_id\<close> (the base class has none,
  so calling it raises \<open>AttributeError\<close>) and the class attribute \<^verbatim>\<open>dataset_tree\<close>.
\<close>

record walker =
  dataset_root :: "string option"
  sample_frequency :: "int option"
  label_definitions :: "(string \<times> label_def) list"
  ignored_speaker_ids_by_label :: "string \<rightharpoonup> string set"
  parse_speaker_id :: "string \<Rightarrow> error + string"
  dataset_tree :: "(string \<times> string list list) list option"

text \<open>Python truthiness of an argument that is \<^verbatim>\<open>None\<close> or a list.\<close>

definition truthy :: "'a list option \<Rightarrow> bool" where
  "truthy x = (case x of None \<Rightarrow> False | Some xs \<Rightarrow> xs \<noteq> [])"

text \<open>
  \<^verbatim>\<open>SpeechDatasetWalker.__init__(dataset_root, paths, labels, checksums, sample_frequency)\<close>:
  the two assertions, then the attribute assignments.
\<close>

definition SpeechDatasetWalker_init ::
  "string option \<Rightarrow> string list option \<Rightarrow> string list option \<Rightarrow> string list option
     \<Rightarrow> int option \<Rightarrow> error + walker" where
  "SpeechDatasetWalker_init root paths labels checksums sf =
     (if root = None \<and> \<not> (truthy paths \<and> truthy labels \<and> truthy checksums)
        then Inl AssertionError
      else if root \<noteq> None \<and> \<not> (paths = None \<and> labels = None \<and> checksums = None)
        then Inl AssertionError
      else Inr \<lparr> dataset_root = root,
                 sample_frequency = sf,
                 label_definitions = [],
                 ignored_speaker_ids_by_label = Map.empty,
                 parse_speaker_id = (\<lambda>_. Inl AttributeError),
                 dataset_tree = None \<rparr>)"

text \<open>\<^verbatim>\<open>join_root\<close>: \<^verbatim>\<open>os.path.join(self.dataset_root, *paths)\<close>, a \<open>TypeError\<close> when the root is \<^verbatim>\<open>None\<close>.\<close>

definition join_root :: "walker \<Rightarrow> string list \<Rightarrow> error + string" where
  "join_root w ps =
     (case dataset_root w of None \<Rightarrow> Inl TypeError | Some r \<Rightarrow> Inr (path_join r ps))"

text \<open>
  \<^verbatim>\<open>set_speaker_filter\<close> stores, for every label of the given dict, the set of its ids;
  \<^verbatim>\<open>speaker_id_is_ignored\<close> consults that dict and parses the speaker id only for a label
  that is a key of it.
\<close>

definition set_speaker_filter :: "walker \<Rightarrow> (string \<rightharpoonup> string list) \<Rightarrow> walker" where
  "set_speaker_filter w speaker_ids_by_label =
     w\<lparr>ignored_speaker_ids_by_label := (\<lambda>label. map_option set (speaker_ids_by_label label))\<rparr>"

definition speaker_id_is_ignored :: "walker \<Rightarrow> string \<Rightarrow> string \<Rightarrow> error + bool" where
  "speaker_id_is_ignored w wavpath label =
     (case ignored_speaker_ids_by_label w label of
        None \<Rightarrow> Inr False
      | Some ids \<Rightarrow>
          (case parse_speaker_id w wavpath of
             Inl e \<Rightarrow> Inl e
           | Inr speaker_id \<Rightarrow> Inr (speaker_id \<notin> ids)))"

section \<open>The file system and the helpers of speechbox.system\<close>

text \<open>
  The walk reads the file system through \<^verbatim>\<open>os.path.exists\<close> and \<^verbatim>\<open>os.walk\<close> and
  through the functions \<^verbatim>\<open>read_wavfile\<close> and \<^verbatim>\<open>md5sum\<close> imported from
  \<^verbatim>\<open>speechbox.system\<close>. They are parameters of the model. \<^verbatim>\<open>read_wavfile\<close> returns the
  pair of the samples (\<^verbatim>\<open>None\<close> when the read failed) and the sampling rate.
  \<^verbatim>\<open>os.walk(top, followlinks)\<close> is a generator that need not end: \<open>os_walk E top fl i\<close> is
  its \<open>i\<close>-th item \<open>(parent, dirs, files)\<close>, or \<open>None\<close> when it has ended by then.
\<close>

record env =
  path_exists :: "string \<Rightarrow> bool"
  read_wavfile :: "string \<Rightarrow> int list option \<times> int option"
  md5sum :: "string \<Rightarrow> string"
  os_walk :: "string \<Rightarrow> bool \<Rightarrow> nat \<Rightarrow> (string \<times> string list \<times> string list) option"

section \<open>The walk\<close>

text \<open>
  The local variables of \<^verbatim>\<open>walk\<close> that its inner function \<^verbatim>\<open>audiofile_ok\<close> and its loops
  update: the \<^verbatim>\<open>defaultdict(list)\<close> of paths by content hash, the list of invalid files and
  the counter of examined files.
\<close>

record walk_state =
  duplicates :: "string \<Rightarrow> string list"
  invalid_files :: "string list"
  num_walked :: nat

definition init_state :: walk_state where
  "init_state = \<lparr> duplicates = (\<lambda>_. []), invalid_files = [], num_walked = 0 \<rparr>"

definition file_extensions :: "string list" where
  "file_extensions = [''wav'']"

text \<open>
  \<^verbatim>\<open>audiofile_ok(wavpath, label)\<close>, with the flags of the enclosing \<^verbatim>\<open>walk\<close> call. It
  returns the updated locals and either the exception of \<^verbatim>\<open>parse_speaker_id\<close> or its
  boolean. The \<^verbatim>\<open>print\<close> calls guarded by \<^verbatim>\<open>verbosity\<close> change no variable and are left out,
  and so is \<^verbatim>\<open>get_audio_type\<close>, whose result is only printed.
\<close>

definition audiofile_ok ::
  "env \<Rightarrow> walker \<Rightarrow> bool \<Rightarrow> bool \<Rightarrow> walk_state \<Rightarrow> string \<Rightarrow> string
     \<Rightarrow> walk_state \<times> (error + bool)" where
  "audiofile_ok E w check_duplicates check_read st wavpath label =
     (if \<not> path_exists E wavpath then (st, Inr False)
      else if check_read \<and> fst (read_wavfile E wavpath) = None
        then (st\<lparr>invalid_files := invalid_files st @ [wavpath]\<rparr>, Inr False)
      else
        let content_hash = md5sum E wavpath;
            st1 = (if check_duplicates
                   then st\<lparr>duplicates :=
                          (duplicates st)(content_hash := duplicates st content_hash @ [wavpath])\<rparr>
                   else st)
        in if check_duplicates \<and> length (duplicates st1 content_hash) > 1 then (st1, Inr False)
           else
             (case speaker_id_is_ignored w wavpath label of
                Inl e \<Rightarrow> (st1, Inl e)
              | Inr True \<Rightarrow> (st1, Inr False)
              | Inr False \<Rightarrow>
                  if \<not> list_ex (endswith wavpath) file_extensions then (st1, Inr False)
                  else (st1, Inr True)))"

text \<open>
  \<^verbatim>\<open>walk\<close> is a generator. Its run is the list of triples it has yielded, the locals it
  ends with, and how it stopped: it finished, it raised, or it was still consuming
  \<^verbatim>\<open>os.walk\<close> items when the fuel ran out.
\<close>

datatype status = Finished | Raised error | OutOfFuel

type_synonym triple = "string \<times> string \<times> string"

type_synonym run = "triple list \<times> walk_state \<times> status"

definition and_then :: "run \<Rightarrow> (walk_state \<Rightarrow> run) \<Rightarrow> run" where
  "and_then r k =
     (case r of
        (ys, st, Finished) \<Rightarrow> (case k st of (ys', st', s) \<Rightarrow> (ys @ ys', st', s))
      | (ys, st, s) \<Rightarrow> (ys, st, s))"

text \<open>The statement \<^verbatim>\<open>if audiofile_ok(wavpath, label): yield label, wavpath, md5sum(wavpath)\<close>.\<close>

definition check_and_yield ::
  "env \<Rightarrow> walker \<Rightarrow> bool \<Rightarrow> bool \<Rightarrow> string \<Rightarrow> string \<Rightarrow> walk_state \<Rightarrow> run" where
  "check_and_yield E w cd cr label wavpath st =
     (case audiofile_ok E w cd cr st wavpath label of
        (st', Inl e) \<Rightarrow> ([], st', Raised e)
      | (st', Inr ok) \<Rightarrow>
          (if ok then [(label, wavpath, md5sum E wavpath)] else [], st', Finished))"

text \<open>The loop \<^verbatim>\<open>for f in files\<close> over the files of one directory \<open>parent\<close>.\<close>

fun walk_files ::
  "env \<Rightarrow> walker \<Rightarrow> bool \<Rightarrow> bool \<Rightarrow> string \<Rightarrow> string \<Rightarrow> string list \<Rightarrow> walk_state \<Rightarrow> run" where
  "walk_files E w cd cr label parent [] st = ([], st, Finished)"
| "walk_files E w cd cr label parent (f # fs) st =
     (let st1 = st\<lparr>num_walked := num_walked st + 1\<rparr>
      in case join_root w [parent, f] of
           Inl e \<Rightarrow> ([], st1, Raised e)
         | Inr wavpath \<Rightarrow>
             and_then (check_and_yield E w cd cr label wavpath st1)
               (\<lambda>st2. walk_files E w cd cr label parent fs st2))"

text \<open>
  The loop \<^verbatim>\<open>for parent, _, files in os.walk(sample_dir, followlinks=followlinks)\<close>, from
  item \<open>i\<close> on, with the set \<^verbatim>\<open>seen_directories\<close>. The first argument bounds the number of
  items taken from the generator.
\<close>

fun walk_entries ::
  "nat \<Rightarrow> env \<Rightarrow> walker \<Rightarrow> bool \<Rightarrow> bool \<Rightarrow> bool \<Rightarrow> string \<Rightarrow> string \<Rightarrow> nat \<Rightarrow> string set
     \<Rightarrow> walk_state \<Rightarrow> run" where
  "walk_entries 0 E w cd cr fl label sample_dir i seen st = ([], st, OutOfFuel)"
| "walk_entries (Suc n) E w cd cr fl label sample_dir i seen st =
     (case os_walk E sample_dir fl i of
        None \<Rightarrow> ([], st, Finished)
      | Some (parent, dirs, files) \<Rightarrow>
          (case join_root w [parent] of
             Inl e \<Rightarrow> ([], st, Raised e)
           | Inr this_dir \<Rightarrow>
               if this_dir \<in> seen then ([], st, Raised (DatasetRecursionError this_dir))
               else
                 and_then (walk_files E w cd cr label parent files st)
                   (\<lambda>st1. walk_entries n E w cd cr fl label sample_dir (Suc i)
                            (insert this_dir seen) st1)))"

text \<open>The loop \<^verbatim>\<open>for sample_dir in sample_dirs\<close>; each directory starts with an empty set.\<close>

fun walk_dirs ::
  "nat \<Rightarrow> env \<Rightarrow> walker \<Rightarrow> bool \<Rightarrow> bool \<Rightarrow> bool \<Rightarrow> string \<Rightarrow> string list \<Rightarrow> walk_state \<Rightarrow> run" where
  "walk_dirs n E w cd cr fl label [] st = ([], st, Finished)"
| "walk_dirs n E w cd cr fl label (sample_dir # ds) st =
     and_then (walk_entries n E w cd cr fl label sample_dir 0 {} st)
       (\<lambda>st1. walk_dirs n E w cd cr fl label ds st1)"

text \<open>The loop \<^verbatim>\<open>for wavpath in sample_files\<close> over the directly specified paths.\<close>

fun walk_sample_files ::
  "env \<Rightarrow> walker \<Rightarrow> bool \<Rightarrow> bool \<Rightarrow> string \<Rightarrow> string list \<Rightarrow> walk_state \<Rightarrow> run" where
  "walk_sample_files E w cd cr label [] st = ([], st, Finished)"
| "walk_sample_files E w cd cr label (wavpath # ps) st =
     and_then (check_and_yield E w cd cr label wavpath (st\<lparr>num_walked := num_walked st + 1\<rparr>))
       (\<lambda>st1. walk_sample_files E w cd cr label ps st1)"

text \<open>\<^verbatim>\<open>d.get(key, [])\<close> on one of the list-valued keys of a label definition.\<close>

definition get_or_empty :: "'a list option \<Rightarrow> 'a list" where
  "get_or_empty x = (case x of None \<Rightarrow> [] | Some xs \<Rightarrow> xs)"

text \<open>The outer loop \<^verbatim>\<open>for label in sorted(self.label_definitions.keys())\<close>.\<close>

fun walk_labels ::
  "nat \<Rightarrow> env \<Rightarrow> walker \<Rightarrow> bool \<Rightarrow> bool \<Rightarrow> bool \<Rightarrow> string list \<Rightarrow> walk_state \<Rightarrow> run" where
  "walk_labels n E w cd cr fl [] st = ([], st, Finished)"
| "walk_labels n E w cd cr fl (label # ls) st =
     (case map_of (label_definitions w) label of
        None \<Rightarrow> ([], st, Raised (KeyError label))
      | Some d \<Rightarrow>
          and_then (walk_dirs n E w cd cr fl label (get_or_empty (sample_dirs d)) st)
            (\<lambda>st1. and_then (walk_sample_files E w cd cr label (get_or_empty (sample_files d)) st1)
              (\<lambda>st2. walk_labels n E w cd cr fl ls st2)))"

text \<open>
  \<^verbatim>\<open>walk(check_duplicates, check_read, followlinks, verbosity)\<close>. The verbosity only selects
  what is printed. The first argument is the fuel of each \<^verbatim>\<open>os.walk\<close> loop.
\<close>

definition walk :: "nat \<Rightarrow> env \<Rightarrow> walker \<Rightarrow> bool \<Rightarrow> bool \<Rightarrow> bool \<Rightarrow> int \<Rightarrow> run" where
  "walk n E w check_duplicates check_read followlinks verbosity =
     walk_labels n E w check_duplicates check_read followlinks
       (sort (dict_keys (label_definitions w))) init_state"

definition yielded :: "run \<Rightarrow> triple list" where
  "yielded r = fst r"

definition final_state :: "run \<Rightarrow> walk_state" where
  "final_state r = fst (snd r)"

definition stopped :: "run \<Rightarrow> status" where
  "stopped r = snd (snd r)"

text \<open>\<^verbatim>\<open>__iter__\<close> returns \<^verbatim>\<open>self.walk()\<close>, the walk with the defaults of its signature.\<close>

definition iter :: "nat \<Rightarrow> env \<Rightarrow> walker \<Rightarrow> run" where
  "iter n E w = walk n E w False False True 0"

section \<open>Walkers of a corpus\<close>

text \<open>
  \<^verbatim>\<open>parse_directory_tree\<close> sets, for every label definition, \<^verbatim>\<open>sample_dirs\<close> to the
  entries of \<^verbatim>\<open>self.dataset_tree[label]\<close>, each joined onto the dataset root.
\<close>

fun join_all :: "walker \<Rightarrow> string list list \<Rightarrow> error + string list" where
  "join_all w [] = Inr []"
| "join_all w (paths # rest) =
     (case join_root w paths of
        Inl e \<Rightarrow> Inl e
      | Inr d \<Rightarrow> (case join_all w rest of Inl e \<Rightarrow> Inl e | Inr ds \<Rightarrow> Inr (d # ds)))"

fun parse_tree_defs ::
  "walker \<Rightarrow> (string \<times> string list list) list \<Rightarrow> (string \<times> label_def) list
     \<Rightarrow> error + (string \<times> label_def) list" where
  "parse_tree_defs w tree [] = Inr []"
| "parse_tree_defs w tree ((label, defn) # rest) =
     (case map_of tree label of
        None \<Rightarrow> Inl (KeyError label)
      | Some pathss \<Rightarrow>
          (case join_all w pathss of
             Inl e \<Rightarrow> Inl e
           | Inr ds \<Rightarrow>
               (case parse_tree_defs w tree rest of
                  Inl e \<Rightarrow> Inl e
                | Inr rest' \<Rightarrow> Inr ((label, defn\<lparr>sample_dirs := Some ds\<rparr>) # rest'))))"

definition parse_directory_tree :: "walker \<Rightarrow> error + walker" where
  "parse_directory_tree w =
     (case dataset_tree w of
        None \<Rightarrow> Inl AttributeError
      | Some tree \<Rightarrow>
          (case parse_tree_defs w tree (label_definitions w) of
             Inl e \<Rightarrow> Inl e
           | Inr defs \<Rightarrow> Inr (w\<lparr>label_definitions := defs\<rparr>)))"

text \<open>
  \<^verbatim>\<open>overwrite_target_paths\<close> empties the three lists of every label definition and then
  appends each given path and checksum to the lists of its label; a label without a
  definition is a \<open>KeyError\<close>.
\<close>

definition dict_update :: "string \<Rightarrow> 'v \<Rightarrow> (string \<times> 'v) list \<Rightarrow> (string \<times> 'v) list" where
  "dict_update k v d = map (\<lambda>(k', v'). if k' = k then (k', v) else (k', v')) d"

fun set_target_paths ::
  "(string \<times> string \<times> string) list \<Rightarrow> (string \<times> label_def) list
     \<Rightarrow> error + (string \<times> label_def) list" where
  "set_target_paths [] defs = Inr defs"
| "set_target_paths ((label, path, checksum) # rest) defs =
     (case map_of defs label of
        None \<Rightarrow> Inl (KeyError label)
      | Some d \<Rightarrow>
          set_target_paths rest
            (dict_update label
               (d\<lparr>sample_files := Some (get_or_empty (sample_files d) @ [path]),
                  sample_file_checksums :=
                    Some (get_or_empty (sample_file_checksums d) @ [checksum])\<rparr>) defs))"

definition overwrite_target_paths ::
  "walker \<Rightarrow> string list \<Rightarrow> string list \<Rightarrow> string list \<Rightarrow> error + walker" where
  "overwrite_target_paths w paths labels checksums =
     (case set_target_paths (zip labels (zip paths checksums))
             (map (\<lambda>(label, d). (label, d\<lparr>sample_dirs := Some [], sample_files := Some [],
                                            sample_file_checksums := Some []\<rparr>))
                (label_definitions w)) of
        Inl e \<Rightarrow> Inl e
      | Inr defs \<Rightarrow> Inr (w\<lparr>label_definitions := defs\<rparr>))"

text \<open>
  The constructors of \<^verbatim>\<open>OGIWalker\<close>, \<^verbatim>\<open>OGIWalker2\<close> and \<^verbatim>\<open>TestWalker\<close> have one shape:
  the base constructor, the label definitions of the corpus, then
  \<^verbatim>\<open>parse_directory_tree\<close> when \<^verbatim>\<open>kwargs.get("dataset_root")\<close> is truthy and
  \<^verbatim>\<open>overwrite_target_paths(kwargs["paths"], kwargs["labels"], kwargs["checksums"])\<close>
  otherwise. The arguments are keyword arguments, \<open>None\<close> standing for one that is not
  passed, so that \<^verbatim>\<open>kwargs["paths"]\<close> is then a \<open>KeyError\<close>.
\<close>

definition tree_walker_init ::
  "(string \<times> string list list) list \<Rightarrow> (string \<times> label_def) list \<Rightarrow> (string \<Rightarrow> error + string)
     \<Rightarrow> string option \<Rightarrow> string list option \<Rightarrow> string list option \<Rightarrow> string list option
     \<Rightarrow> int option \<Rightarrow> error + walker" where
  "tree_walker_init tree defs parse root paths labels checksums sf =
     (case SpeechDatasetWalker_init root paths labels checksums sf of
        Inl e \<Rightarrow> Inl e
      | Inr w0 \<Rightarrow>
          let w1 = w0\<lparr>label_definitions := defs, parse_speaker_id := parse,
                      dataset_tree := Some tree\<rparr>
          in if (case root of None \<Rightarrow> False | Some r \<Rightarrow> r \<noteq> [])
             then parse_directory_tree w1
             else (case paths of
                     None \<Rightarrow> Inl (KeyError ''paths'')
                   | Some ps \<Rightarrow>
                       (case labels of
                          None \<Rightarrow> Inl (KeyError ''labels'')
                        | Some ls \<Rightarrow>
                            (case checksums of
                               None \<Rightarrow> Inl (KeyError ''checksums'')
                             | Some cs \<Rightarrow> overwrite_target_paths w1 ps ls cs))))"

definition named :: "string \<Rightarrow> label_def" where
  "named n = \<lparr> label_name = Some n, sample_dirs = None, sample_files = None,
               sample_file_checksums = None \<rparr>"

definition OGI_dataset_tree :: "(string \<times> string list list) list" where
  "OGI_dataset_tree =
     [(''cmn'', [[''wav'', ''mandarin'']]),
      (''deu'', [[''wav'', ''german'']]),
      (''eng'', [[''wav'', ''english'']]),
      (''fas'', [[''wav'', ''farsi'']]),
      (''fra'', [[''wav'', ''french'']]),
      (''hin'', [[''wav'', ''hindi'']]),
      (''jpn'', [[''wav'', ''japanese'']]),
      (''kor'', [[''wav'', ''korean'']]),
      (''spa'', [[''wav'', ''spanish'']]),
      (''tam'', [[''wav'', ''tamil'']]),
      (''vie'', [[''wav'', ''vietnam'']])]"

definition OGI_label_definitions :: "(string \<times> label_def) list" where
  "OGI_label_definitions =
     [(''cmn'', named ''Mandarin Chinese''),
      (''deu'', named ''German''),
      (''eng'', named ''English''),
      (''fas'', named ''Persian/Farsi''),
      (''fra'', named ''French''),
      (''hin'', named ''Hindi''),
      (''jpn'', named ''Japanese''),
      (''kor'', named ''Korean''),
      (''spa'', named ''Spanish''),
      (''tam'', named ''Tamil''),
      (''vie'', named ''Vietnam'')]"

text \<open>\<^verbatim>\<open>OGIWalker.parse_speaker_id\<close>: \<^verbatim>\<open>os.path.basename(path)[:5]\<close>.\<close>

definition OGI_parse_speaker_id :: "string \<Rightarrow> error + string" where
  "OGI_parse_speaker_id path = Inr (take 5 (basename path))"

definition OGIWalker_init ::
  "string option \<Rightarrow> string list option \<Rightarrow> string list option \<Rightarrow> string list option
     \<Rightarrow> int option \<Rightarrow> error + walker" where
  "OGIWalker_init = tree_walker_init OGI_dataset_tree OGI_label_definitions OGI_parse_speaker_id"

definition Test_dataset_tree :: "(string \<times> string list list) list" where
  "Test_dataset_tree =
     [(''cmn'', [[''chinese'']]),
      (''eng'', [[''english'']]),
      (''fas'', [[''persian'']]),
      (''fra'', [[''french'']]),
      (''swe'', [[''swedish'']])]"

definition Test_label_definitions :: "(string \<times> label_def) list" where
  "Test_label_definitions =
     [(''cmn'', named ''Mandarin (China)''),
      (''eng'', named ''English''),
      (''fas'', named ''Persian''),
      (''fra'', named ''French''),
      (''swe'', named ''Swedish'')]"

text \<open>\<^verbatim>\<open>TestWalker\<close> defines no \<^verbatim>\<open>parse_speaker_id\<close>.\<close>

definition TestWalker_init ::
  "string option \<Rightarrow> string list option \<Rightarrow> string list option \<Rightarrow> string list option
     \<Rightarrow> int option \<Rightarrow> error + walker" where
  "TestWalker_init =
     tree_walker_init Test_dataset_tree Test_label_definitions (\<lambda>_. Inl AttributeError)"

section \<open>Speakers per label\<close>

text \<open>
  A \<^verbatim>\<open>collections.Counter\<close> is an association list from keys to counts, a key entering at
  its first increment. \<^verbatim>\<open>count_files_per_speaker_by_label\<close> starts with an empty counter
  for every label and consumes the default iteration: for each yielded triple it parses
  the speaker id and increments that speaker's count under the label. An exception of
  \<^verbatim>\<open>parse_speaker_id\<close> or of the walk ends it; it does not return while the walk does not.
\<close>

definition counter_incr :: "string \<Rightarrow> (string \<times> nat) list \<Rightarrow> (string \<times> nat) list" where
  "counter_incr k c =
     (case map_of c k of None \<Rightarrow> c @ [(k, 1)] | Some v \<Rightarrow> dict_update k (v + 1) c)"

fun count_loop ::
  "walker \<Rightarrow> triple list \<Rightarrow> (string \<times> (string \<times> nat) list) list
     \<Rightarrow> error + (string \<times> (string \<times> nat) list) list" where
  "count_loop w [] c = Inr c"
| "count_loop w ((label, path, checksum) # ys) c =
     (case parse_speaker_id w path of
        Inl e \<Rightarrow> Inl e
      | Inr speaker_id \<Rightarrow>
          (case map_of c label of
             None \<Rightarrow> Inl (KeyError label)
           | Some files_per_speaker \<Rightarrow>
               count_loop w ys (dict_update label (counter_incr speaker_id files_per_speaker) c)))"

definition count_files_per_speaker_by_label ::
  "nat \<Rightarrow> env \<Rightarrow> walker \<Rightarrow> (error + (string \<times> (string \<times> nat) list) list) option" where
  "count_files_per_speaker_by_label n E w =
     (case count_loop w (yielded (iter n E w))
             (map (\<lambda>label. (label, [])) (dict_keys (label_definitions w))) of
        Inl e \<Rightarrow> Some (Inl e)
      | Inr c \<Rightarrow>
          (case stopped (iter n E w) of
             Finished \<Rightarrow> Some (Inr c)
           | Raised e \<Rightarrow> Some (Inl e)
           | OutOfFuel \<Rightarrow> None))"

definition speakers_per_label ::
  "nat \<Rightarrow> env \<Rightarrow> walker \<Rightarrow> (error + (string \<times> nat) list) option" where
  "speakers_per_label n E w =
     (case count_files_per_speaker_by_label n E w of
        None \<Rightarrow> None
      | Some (Inl e) \<Rightarrow> Some (Inl e)
      | Some (Inr counts) \<Rightarrow>
          Some (Inr (map (\<lambda>(label, files_per_speaker). (label, length files_per_speaker))
                       counts)))"

definition speaker_ids_by_label ::
  "nat \<Rightarrow> env \<Rightarrow> walker \<Rightarrow> (error + (string \<times> string list) list) option" where
  "speaker_ids_by_label n E w =
     (case count_files_per_speaker_by_label n E w of
        None \<Rightarrow> None
      | Some (Inl e) \<Rightarrow> Some (Inl e)
      | Some (Inr counts) \<Rightarrow>
          Some (Inr (map (\<lambda>(label, files_per_speaker). (label, sort (map fst files_per_speaker)))
                       counts)))"

section \<open>The examined files of a walk\<close>

text \<open>
  The paths a walk examines do not depend on what it finds in them: \<open>examined\<close> lists, in
  order, the pairs of label and path that the loops of \<^verbatim>\<open>walk\<close> pass to
  \<^verbatim>\<open>audiofile_ok\<close>, and how the traversal stops. \<open>process\<close> runs the body of the loops over
  such a list, and \<open>replay\<close> ends it with the status of the traversal.
\<close>

fun process ::
  "env \<Rightarrow> walker \<Rightarrow> bool \<Rightarrow> bool \<Rightarrow> (string \<times> string) list \<Rightarrow> walk_state \<Rightarrow> run" where
  "process E w cd cr [] st = ([], st, Finished)"
| "process E w cd cr ((label, wavpath) # cs) st =
     and_then (check_and_yield E w cd cr label wavpath (st\<lparr>num_walked := num_walked st + 1\<rparr>))
       (\<lambda>st1. process E w cd cr cs st1)"

type_synonym cands = "(string \<times> string) list \<times> status"

definition cand_then :: "cands \<Rightarrow> cands \<Rightarrow> cands" where
  "cand_then c k =
     (case c of
        (cs, Finished) \<Rightarrow> (case k of (cs', s) \<Rightarrow> (cs @ cs', s))
      | (cs, s) \<Rightarrow> (cs, s))"

definition replay :: "env \<Rightarrow> walker \<Rightarrow> bool \<Rightarrow> bool \<Rightarrow> cands \<Rightarrow> walk_state \<Rightarrow> run" where
  "replay E w cd cr c st = and_then (process E w cd cr (fst c) st) (\<lambda>st'. ([], st', snd c))"

fun cands_entries ::
  "nat \<Rightarrow> env \<Rightarrow> walker \<Rightarrow> bool \<Rightarrow> string \<Rightarrow> string \<Rightarrow> nat \<Rightarrow> string set \<Rightarrow> cands" where
  "cands_entries 0 E w fl label sample_dir i seen = ([], OutOfFuel)"
| "cands_entries (Suc n) E w fl label sample_dir i seen =
     (case os_walk E sample_dir fl i of
        None \<Rightarrow> ([], Finished)
      | Some (parent, dirs, files) \<Rightarrow>
          (case dataset_root w of
             None \<Rightarrow> ([], Raised TypeError)
           | Some r \<Rightarrow>
               if path_join r [parent] \<in> seen
               then ([], Raised (DatasetRecursionError (path_join r [parent])))
               else cand_then (map (\<lambda>f. (label, path_join r [parent, f])) files, Finished)
                      (cands_entries n E w fl label sample_dir (Suc i)
                         (insert (path_join r [parent]) seen))))"

fun cands_dirs :: "nat \<Rightarrow> env \<Rightarrow> walker \<Rightarrow> bool \<Rightarrow> string \<Rightarrow> string list \<Rightarrow> cands" where
  "cands_dirs n E w fl label [] = ([], Finished)"
| "cands_dirs n E w fl label (sample_dir # ds) =
     cand_then (cands_entries n E w fl label sample_dir 0 {}) (cands_dirs n E w fl label ds)"

fun cands_labels :: "nat \<Rightarrow> env \<Rightarrow> walker \<Rightarrow> bool \<Rightarrow> string list \<Rightarrow> cands" where
  "cands_labels n E w fl [] = ([], Finished)"
| "cands_labels n E w fl (label # ls) =
     (case map_of (label_definitions w) label of
        None \<Rightarrow> ([], Raised (KeyError label))
      | Some d \<Rightarrow>
          cand_then (cands_dirs n E w fl label (get_or_empty (sample_dirs d)))
            (cand_then (map (\<lambda>p. (label, p)) (get_or_empty (sample_files d)), Finished)
               (cands_labels n E w fl ls)))"

definition examined :: "nat \<Rightarrow> env \<Rightarrow> walker \<Rightarrow> bool \<Rightarrow> cands" where
  "examined n E w fl = cands_labels n E w fl (sort (dict_keys (label_definitions w)))"

text \<open>
  Where a path of label \<open>l\<close> can come from: it is one of the sample files of the label's
  definition, or the join of the dataset root, a directory and one of its files, as
  \<^verbatim>\<open>os.walk\<close> lists them for one of the label's sample directories.
\<close>

definition from_label :: "env \<Rightarrow> walker \<Rightarrow> bool \<Rightarrow> string \<Rightarrow> string \<Rightarrow> bool" where
  "from_label E w fl l p =
     (\<exists>d. map_of (label_definitions w) l = Some d \<and>
        (p \<in> set (get_or_empty (sample_files d)) \<or>
         (\<exists>sample_dir \<in> set (get_or_empty (sample_dirs d)).
            \<exists>r j parent dirs files f. dataset_root w = Some r
              \<and> os_walk E sample_dir fl j = Some (parent, dirs, files) \<and> f \<in> set files
              \<and> p = path_join r [parent, f])))"

text \<open>
  The two validity checks of \<^verbatim>\<open>audiofile_ok\<close> as predicates on a path: the read of an
  existing file fails under \<^verbatim>\<open>check_read\<close>; the file reaches the hashing under
  \<^verbatim>\<open>check_duplicates\<close>.
\<close>

definition unreadable :: "env \<Rightarrow> bool \<Rightarrow> string \<Rightarrow> bool" where
  "unreadable E cr p = (cr \<and> path_exists E p \<and> fst (read_wavfile E p) = None)"

definition hashed :: "env \<Rightarrow> bool \<Rightarrow> bool \<Rightarrow> string \<Rightarrow> bool" where
  "hashed E cd cr p = (cd \<and> path_exists E p \<and> (cr \<longrightarrow> fst (read_wavfile E p) \<noteq> None))"

text \<open>
  The invariant of duplicate detection: every yielded path is the first one recorded
  under its checksum, and no checksum is yielded twice.
\<close>

definition first_of_hash :: "walk_state \<Rightarrow> triple list \<Rightarrow> bool" where
  "first_of_hash st ys =
     ((\<forall>(l, p, c) \<in> set ys. duplicates st c \<noteq> [] \<and> hd (duplicates st c) = p)
      \<and> distinct (map (\<lambda>(l, p, c). c) ys))"

text \<open>
  The speaker ids parsed from the paths that a list of triples has for a label, in the
  order of the list, and the set of them.
\<close>

fun speaker_ids :: "walker \<Rightarrow> triple list \<Rightarrow> string \<Rightarrow> string list" where
  "speaker_ids w [] label = []"
| "speaker_ids w ((l, p, c) # ys) label =
     (if l = label
      then (case parse_speaker_id w p of Inl e \<Rightarrow> [] | Inr speaker_id \<Rightarrow> [speaker_id])
      else []) @ speaker_ids w ys label"

definition speakers_of :: "walker \<Rightarrow> triple list \<Rightarrow> string \<Rightarrow> string set" where
  "speakers_of w ys label = set (speaker_ids w ys label)"

text \<open>
  The invariant of the counting loop: the counters have the keys \<open>K\<close>, and the counter of
  a label has one entry for each speaker id seen so far under that label.
\<close>

definition counts_ok ::
  "walker \<Rightarrow> string list \<Rightarrow> triple list \<Rightarrow> (string \<times> (string \<times> nat) list) list \<Rightarrow> bool" where
  "counts_ok w K seen c =
     (map fst c = K \<and>
      (\<forall>(l, cnt) \<in> set c. distinct (map fst cnt) \<and> set (map fst cnt) = speakers_of w seen l))"

section \<open>Two small corpora\<close>

text \<open>
  An OGI corpus under \<^verbatim>\<open>/data\<close> whose English directory holds five files: two
  recordings of speaker EN001 with equal contents, one of EN002, one of EN003 that cannot
  be read as audio, and a text file.
\<close>

definition demo_env :: env where
  "demo_env =
     \<lparr> path_exists = (\<lambda>p. True),
       read_wavfile = (\<lambda>p. if p = ''/data/wav/english/EN003bad.wav'' then (None, None)
                           else (Some [0], Some 8000)),
       md5sum = (\<lambda>p. if p = ''/data/wav/english/EN001call.wav'' then ''h1''
                      else if p = ''/data/wav/english/EN001copy.wav'' then ''h1''
                      else if p = ''/data/wav/english/EN002call.wav'' then ''h2''
                      else ''h3''),
       os_walk = (\<lambda>top followlinks i.
                    if top = ''/data/wav/english'' \<and> i = 0
                    then Some (''/data/wav/english'', [],
                               [''EN001call.wav'', ''EN001copy.wav'', ''EN002call.wav'',
                                ''EN003bad.wav'', ''notes.txt''])
                    else None) \<rparr>"

definition demo_walker :: walker where
  "demo_walker = projr (OGIWalker_init (Some ''/data'') None None None None)"

text \<open>
  A test corpus under \<^verbatim>\<open>/data\<close> whose directory \<^verbatim>\<open>chinese\<close> holds the file
  \<^verbatim>\<open>a.wav\<close> and a symbolic link \<^verbatim>\<open>loop\<close> to the directory itself. With
  \<^verbatim>\<open>followlinks\<close>, \<^verbatim>\<open>os.walk\<close> descends through the link again and again, each time
  under a path one component longer, until the operating system refuses to resolve the
  path; \<open>depth\<close> is the number of times it follows the link.
\<close>

definition loop_dir :: "nat \<Rightarrow> string" where
  "loop_dir i = ''/data/chinese'' @ concat (replicate i ''/loop'')"

definition loop_env :: "nat \<Rightarrow> env" where
  "loop_env depth =
     \<lparr> path_exists = (\<lambda>p. True),
       read_wavfile = (\<lambda>p. (Some [0], Some 8000)),
       md5sum = (\<lambda>p. ''h''),
       os_walk = (\<lambda>top followlinks i.
                    if top = ''/data/chinese'' \<and> (i = 0 \<or> (followlinks \<and> i \<le> depth))
                    then Some (loop_dir i, [''loop''], [''a.wav''])
                    else None) \<rparr>"

definition loop_walker :: walker where
  "loop_walker = projr (TestWalker_init (Some ''/data'') None None None None)"

section \<open>The legacy OGI walker\<close>

text \<open>
  Python's \<^verbatim>\<open>str.split(sep)\<close> for a separator that is not empty: the pieces between the
  occurrences of the separator, found from left to right. The second argument collects the
  current piece in reverse.
\<close>

function split_from :: "string \<Rightarrow> string \<Rightarrow> string \<Rightarrow> string list" where
  "split_from sep acc [] = [rev acc]"
| "split_from sep acc (c # cs) =
     (if sep \<noteq> [] \<and> startswith (c # cs) sep
      then rev acc # split_from sep [] (drop (length sep) (c # cs))
      else split_from sep (c # acc) cs)"
  by pat_completeness auto
termination
  by (relation "measure (\<lambda>(sep, acc, s). length s)") auto

definition split :: "string \<Rightarrow> string \<Rightarrow> string list" where
  "split s sep = split_from sep [] s"

text \<open>
  \<^verbatim>\<open>OGIWalker2.parse_speaker_id\<close>:
  \<^verbatim>\<open>os.path.basename(path).split("call-")[1].split("-")[0]\<close>. The index \<^verbatim>\<open>[1]\<close> raises
  \<open>IndexError\<close> for a file name without \<^verbatim>\<open>call-\<close>.
\<close>

definition OGI2_parse_speaker_id :: "string \<Rightarrow> error + string" where
  "OGI2_parse_speaker_id path =
     (case split (basename path) ''call-'' of
        a # b # rest \<Rightarrow>
          (case split b ''-'' of [] \<Rightarrow> Inl IndexError | speaker_id # others \<Rightarrow> Inr speaker_id)
      | _ \<Rightarrow> Inl IndexError)"

definition OGI2_dataset_tree :: "(string \<times> string list list) list" where
  "OGI2_dataset_tree =
     [(''eng'', [[''cd01'', ''speech'', ''english'']]),
      (''hin'', [[''cd02'', ''speech'', ''hindi''], [''cd03'', ''speech'', ''hindi'']]),
      (''jpn'', [[''cd02'', ''speech'', ''japanese''], [''cd03'', ''speech'', ''japanese'']]),
      (''kor'', [[''cd02'', ''speech'', ''korean''], [''cd03'', ''speech'', ''korean'']]),
      (''cmn'', [[''cd02'', ''speech'', ''mandarin''], [''cd03'', ''speech'', ''mandarin'']]),
      (''spa'', [[''cd02'', ''speech'', ''spanish''], [''cd03'', ''speech'', ''spanish''],
                 [''cd04'', ''speech'', ''spanish'']]),
      (''tam'', [[''cd04'', ''speech'', ''tamil'']]),
      (''vie'', [[''cd04'', ''speech'', ''vietnamese'']])]"

definition OGI2_label_definitions :: "(string \<times> label_def) list" where
  "OGI2_label_definitions =
     [(''eng'', named ''English''),
      (''hin'', named ''Hindi''),
      (''jpn'', named ''Japanese''),
      (''kor'', named ''Korean''),
      (''cmn'', named ''Mandarin Chinese''),
      (''spa'', named ''Spanish''),
      (''tam'', named ''Tamil''),
      (''vie'', named ''Vietnamese'')]"

definition OGIWalker2_init ::
  "string option \<Rightarrow> string list option \<Rightarrow> string list option \<Rightarrow> string list option
     \<Rightarrow> int option \<Rightarrow> error + walker" where
  "OGIWalker2_init =
     tree_walker_init OGI2_dataset_tree OGI2_label_definitions OGI2_parse_speaker_id"

section \<open>Corpora with faults\<close>

text \<open>
  A legacy OGI corpus under \<^verbatim>\<open>/data\<close> whose English directory holds a recording of
  speaker 12 and a file whose name does not follow the pattern of the corpus.
\<close>

definition legacy_env :: env where
  "legacy_env =
     \<lparr> path_exists = (\<lambda>p. True),
       read_wavfile = (\<lambda>p. (Some [0], Some 8000)),
       md5sum = (\<lambda>p. if p = ''/data/cd01/speech/english/ENcall-12-G.story.wav'' then ''h1''
                      else ''h2''),
       os_walk = (\<lambda>sample_dir followlinks i.
                    if sample_dir = ''/data/cd01/speech/english'' \<and> i = 0
                    then Some (''/data/cd01/speech/english'', [],
                               [''ENcall-12-G.story.wav'', ''notes.wav''])
                    else None) \<rparr>"

definition legacy_walker :: walker where
  "legacy_walker = projr (OGIWalker2_init (Some ''/data'') None None None None)"

text \<open>
  A test corpus under \<^verbatim>\<open>/data\<close> whose directory \<^verbatim>\<open>chinese\<close> lists three names:
  \<^verbatim>\<open>bad.wav\<close>, a file that cannot be read as audio; \<^verbatim>\<open>gone.wav\<close>, a symbolic link whose
  target is missing, so that the path does not exist; and \<^verbatim>\<open>ok.wav\<close>, a valid recording
  with the content hash of \<^verbatim>\<open>bad.wav\<close>.
\<close>

definition faulty_env :: env where
  "faulty_env =
     \<lparr> path_exists = (\<lambda>p. p \<noteq> ''/data/chinese/gone.wav''),
       read_wavfile = (\<lambda>p. if p = ''/data/chinese/ok.wav'' then (Some [0], Some 8000)
                           else (None, None)),
       md5sum = (\<lambda>p. ''h''),
       os_walk = (\<lambda>sample_dir followlinks i.
                    if sample_dir = ''/data/chinese'' \<and> i = 0
                    then Some (''/data/chinese'', [], [''bad.wav'', ''gone.wav'', ''ok.wav''])
                    else None) \<rparr>"

definition test_walker :: walker where
  "test_walker = projr (TestWalker_init (Some ''/data'') None None None None)"

text \<open>
  A test corpus under the relative root \<^verbatim>\<open>rel\<close>. Its directory \<^verbatim>\<open>rel/chinese\<close> holds
  \<^verbatim>\<open>a.wav\<close>, and another file lies at \<^verbatim>\<open>rel/rel/chinese/a.wav\<close>, outside every sample
  directory.
\<close>

definition rel_env :: env where
  "rel_env =
     \<lparr> path_exists = (\<lambda>p. p = ''rel/chinese/a.wav'' \<or> p = ''rel/rel/chinese/a.wav''),
       read_wavfile = (\<lambda>p. (Some [0], Some 8000)),
       md5sum = (\<lambda>p. if p = ''rel/chinese/a.wav'' then ''found'' else ''other''),
       os_walk = (\<lambda>sample_dir followlinks i.
                    if sample_dir = ''rel/chinese'' \<and> i = 0
                    then Some (''rel/chinese'', [], [''a.wav''])
                    else None) \<rparr>"

definition rel_walker :: walker where
  "rel_walker = projr (TestWalker_init (Some ''rel'') None None None None)"


section \<open>Sequencing and the examined files\<close>

text \<open>
  The loops of the walk are replays of the list of examined files: every property of a
  walk below is proved on that list.
\<close>

lemma and_then_Finished [simp]: "and_then (ys, st, Finished) k = (case k st of (ys', st', s) \<Rightarrow> (ys @ ys', st', s))"
  by (simp add: and_then_def)

lemma and_then_Raised [simp]: "and_then (ys, st, Raised e) k = (ys, st, Raised e)"
  by (simp add: and_then_def)

lemma and_then_OutOfFuel [simp]: "and_then (ys, st, OutOfFuel) k = (ys, st, OutOfFuel)"
  by (simp add: and_then_def)

lemma and_then_assoc: "and_then (and_then r k) k' = and_then r (\<lambda>st. and_then (k st) k')"
  by (cases r rule: prod_cases3; rename_tac ys st s; case_tac s)
     (auto simp: and_then_def split: prod.splits status.splits)

lemma and_then_unit [simp]: "and_then r (\<lambda>st. ([], st, Finished)) = r"
  by (cases r rule: prod_cases3; rename_tac ys st s; case_tac s) auto

lemma process_append:
  "process E w cd cr (cs @ cs') =
     (\<lambda>st. and_then (process E w cd cr cs st) (process E w cd cr cs'))"
proof (induction cs)
  case Nil
  show ?case by (rule ext) (simp add: prod.case_eq_if)
next
  case (Cons c cs)
  show ?case by (rule ext, cases c) (simp add: Cons.IH and_then_assoc)
qed

lemma replay_Finished [simp]: "replay E w cd cr (cs, Finished) = process E w cd cr cs"
  by (rule ext) (simp add: replay_def)

lemma replay_cand_then:
  "replay E w cd cr (cand_then c k) =
     (\<lambda>st. and_then (replay E w cd cr c st) (replay E w cd cr k))"
proof (rule ext)
  fix st
  obtain cs s where c: "c = (cs, s)" by (cases c)
  obtain cs' s' where k: "k = (cs', s')" by (cases k)
  have r: "replay E w cd cr (cs', s') = (\<lambda>st. and_then (process E w cd cr cs' st) (\<lambda>st'. ([], st', s')))"
    by (rule ext) (simp add: replay_def)
  show "replay E w cd cr (cand_then c k) st =
          and_then (replay E w cd cr c st) (replay E w cd cr k)"
    unfolding c k r
    by (cases s) (simp_all add: cand_then_def replay_def process_append and_then_assoc)
qed

lemma walk_files_replay:
  "dataset_root w = Some r \<Longrightarrow>
   walk_files E w cd cr label parent files =
     process E w cd cr (map (\<lambda>f. (label, path_join r [parent, f])) files)"
proof (induction files)
  case Nil
  show ?case by (rule ext) simp
next
  case (Cons f fs)
  show ?case by (rule ext) (simp add: Cons join_root_def)
qed

lemma walk_sample_files_replay:
  "walk_sample_files E w cd cr label ps = process E w cd cr (map (\<lambda>p. (label, p)) ps)"
proof (induction ps)
  case Nil
  show ?case by (rule ext) simp
next
  case (Cons p ps)
  show ?case by (rule ext) (simp add: Cons)
qed

lemma walk_entries_replay:
  "walk_entries n E w cd cr fl label sample_dir i seen =
     replay E w cd cr (cands_entries n E w fl label sample_dir i seen)"
proof (induction n arbitrary: i seen)
  case 0
  show ?case by (rule ext) (simp add: replay_def)
next
  case (Suc n)
  show ?case
  proof (cases "os_walk E sample_dir fl i")
    case None
    then show ?thesis by (intro ext) (simp add: replay_def)
  next
    case (Some entry)
    obtain parent dirs files where entry: "entry = (parent, dirs, files)"
      by (cases entry)
    show ?thesis
    proof (cases "dataset_root w")
      case None
      then show ?thesis using Some entry by (intro ext) (simp add: replay_def join_root_def)
    next
      case root: (Some r)
      show ?thesis
      proof (cases "path_join r [parent] \<in> seen")
        case True
        then show ?thesis using Some entry root
          by (intro ext) (simp add: replay_def join_root_def)
      next
        case False
        then show ?thesis using Some entry root
          by (intro ext)
             (simp add: join_root_def replay_cand_then walk_files_replay Suc.IH)
      qed
    qed
  qed
qed

lemma walk_dirs_replay:
  "walk_dirs n E w cd cr fl label ds = replay E w cd cr (cands_dirs n E w fl label ds)"
proof (induction ds)
  case Nil
  show ?case by (rule ext) simp
next
  case (Cons d ds)
  show ?case by (rule ext) (simp add: replay_cand_then walk_entries_replay Cons)
qed

lemma walk_labels_replay:
  "walk_labels n E w cd cr fl ls = replay E w cd cr (cands_labels n E w fl ls)"
proof (induction ls)
  case Nil
  show ?case by (rule ext) simp
next
  case (Cons label ls)
  show ?case
  proof (cases "map_of (label_definitions w) label")
    case None
    then show ?thesis by (intro ext) (simp add: replay_def)
  next
    case (Some d)
    then show ?thesis
      by (intro ext)
         (simp add: replay_cand_then walk_dirs_replay walk_sample_files_replay Cons.IH)
  qed
qed

lemma walk_replay:
  "walk n E w cd cr fl v = replay E w cd cr (examined n E w fl) init_state"
  by (simp add: walk_def examined_def walk_labels_replay)

lemma yielded_and_then_cases:
  assumes "y \<in> set (fst (and_then r k))"
  shows "y \<in> set (fst r) \<or> (\<exists>st. y \<in> set (fst (k st)))"
proof -
  obtain ys st s where r: "r = (ys, st, s)" by (cases r rule: prod_cases3)
  show ?thesis
  proof (cases s)
    case Finished
    obtain ys' st' s' where k: "k st = (ys', st', s')" by (cases "k st" rule: prod_cases3)
    from assms r Finished k have "y \<in> set ys \<or> y \<in> set (fst (k st))" by auto
    then show ?thesis using r by auto
  next
    case (Raised e)
    then show ?thesis using assms r by simp
  next
    case OutOfFuel
    then show ?thesis using assms r by simp
  qed
qed

lemma check_and_yield_yields:
  assumes "y \<in> set (fst (check_and_yield E w cd cr label wavpath st))"
  shows "y = (label, wavpath, md5sum E wavpath) \<and> path_exists E wavpath
         \<and> list_ex (endswith wavpath) file_extensions
         \<and> speaker_id_is_ignored w wavpath label = Inr False
         \<and> (cr \<longrightarrow> fst (read_wavfile E wavpath) \<noteq> None)"
  using assms
  by (auto simp: check_and_yield_def audiofile_ok_def Let_def
           split: if_splits sum.splits bool.splits)

lemma process_yields:
  assumes "(l, p, c) \<in> set (fst (process E w cd cr cs st))"
  shows "(l, p) \<in> set cs \<and> c = md5sum E p \<and> path_exists E p
         \<and> list_ex (endswith p) file_extensions
         \<and> speaker_id_is_ignored w p l = Inr False
         \<and> (cr \<longrightarrow> fst (read_wavfile E p) \<noteq> None)"
  using assms
proof (induction cs arbitrary: st)
  case Nil
  then show ?case by simp
next
  case (Cons a cs)
  obtain l' p' where a: "a = (l', p')" by (cases a)
  let ?st1 = "st\<lparr>num_walked := num_walked st + 1\<rparr>"
  from Cons.prems a
  have "(l, p, c) \<in> set (fst (check_and_yield E w cd cr l' p' ?st1))
        \<or> (\<exists>st'. (l, p, c) \<in> set (fst (process E w cd cr cs st')))"
    using yielded_and_then_cases
      [of "(l, p, c)" "check_and_yield E w cd cr l' p' ?st1" "process E w cd cr cs"]
    by simp
  then show ?case
  proof
    assume "(l, p, c) \<in> set (fst (check_and_yield E w cd cr l' p' ?st1))"
    from check_and_yield_yields [OF this] a show ?thesis by simp
  next
    assume "\<exists>st'. (l, p, c) \<in> set (fst (process E w cd cr cs st'))"
    then obtain st' where "(l, p, c) \<in> set (fst (process E w cd cr cs st'))" ..
    from Cons.IH [OF this] show ?thesis by simp
  qed
qed

lemma yielded_replay: "fst (replay E w cd cr c st) = fst (process E w cd cr (fst c) st)"
  by (cases "process E w cd cr (fst c) st" rule: prod_cases3; rename_tac ys st' s; case_tac s)
     (simp_all add: replay_def)

lemma set_cand_then: "set (fst (cand_then c k)) \<subseteq> set (fst c) \<union> set (fst k)"
  by (cases c; rename_tac cs s; case_tac s; cases k) (auto simp: cand_then_def)

lemma cands_entries_origin:
  assumes "(l, p) \<in> set (fst (cands_entries n E w fl label sample_dir i seen))"
  shows "l = label \<and> (\<exists>r j parent dirs files f. dataset_root w = Some r
           \<and> os_walk E sample_dir fl j = Some (parent, dirs, files) \<and> f \<in> set files
           \<and> p = path_join r [parent, f])"
  using assms
proof (induction n arbitrary: i seen)
  case 0
  then show ?case by simp
next
  case (Suc n)
  from Suc.prems obtain parent dirs files r where
    e: "os_walk E sample_dir fl i = Some (parent, dirs, files)" and r: "dataset_root w = Some r"
    and ns: "path_join r [parent] \<notin> seen"
    by (auto split: option.splits if_splits)
  let ?rest = "cands_entries n E w fl label sample_dir (Suc i) (insert (path_join r [parent]) seen)"
  from Suc.prems e r ns
  have "(l, p) \<in> set (map (\<lambda>f. (label, path_join r [parent, f])) files) \<or> (l, p) \<in> set (fst ?rest)"
    using set_cand_then [of "(map (\<lambda>f. (label, path_join r [parent, f])) files, Finished)" ?rest]
    by auto
  then show ?case
  proof
    assume "(l, p) \<in> set (map (\<lambda>f. (label, path_join r [parent, f])) files)"
    then obtain f where "f \<in> set files" "l = label" "p = path_join r [parent, f]" by auto
    then show ?thesis using e r by blast
  next
    assume "(l, p) \<in> set (fst ?rest)"
    from Suc.IH [OF this] show ?thesis .
  qed
qed

lemma cands_dirs_origin:
  assumes "(l, p) \<in> set (fst (cands_dirs n E w fl label ds))"
  shows "l = label \<and> (\<exists>sample_dir \<in> set ds. \<exists>r j parent dirs files f. dataset_root w = Some r
           \<and> os_walk E sample_dir fl j = Some (parent, dirs, files) \<and> f \<in> set files
           \<and> p = path_join r [parent, f])"
  using assms
proof (induction ds)
  case Nil
  then show ?case by simp
next
  case (Cons d ds)
  from Cons.prems
  have "(l, p) \<in> set (fst (cands_entries n E w fl label d 0 {}))
        \<or> (l, p) \<in> set (fst (cands_dirs n E w fl label ds))"
    using set_cand_then [of "cands_entries n E w fl label d 0 {}" "cands_dirs n E w fl label ds"]
    by auto
  then show ?case
  proof
    assume "(l, p) \<in> set (fst (cands_entries n E w fl label d 0 {}))"
    from cands_entries_origin [OF this] show ?thesis by auto
  next
    assume "(l, p) \<in> set (fst (cands_dirs n E w fl label ds))"
    from Cons.IH [OF this] show ?thesis by auto
  qed
qed

lemma cands_labels_origin:
  assumes "(l, p) \<in> set (fst (cands_labels n E w fl ls))"
  shows "l \<in> set ls \<and> from_label E w fl l p"
  using assms
proof (induction ls)
  case Nil
  then show ?case by simp
next
  case (Cons label ls)
  from Cons.prems obtain d where d: "map_of (label_definitions w) label = Some d"
    by (auto split: option.splits)
  let ?A = "cands_dirs n E w fl label (get_or_empty (sample_dirs d))"
  let ?B = "(map (\<lambda>p. (label, p)) (get_or_empty (sample_files d)), Finished)"
  let ?C = "cands_labels n E w fl ls"
  from Cons.prems d have "(l, p) \<in> set (fst (cand_then ?A (cand_then ?B ?C)))" by simp
  then have "(l, p) \<in> set (fst ?A) \<or> (l, p) \<in> set (fst ?B) \<or> (l, p) \<in> set (fst ?C)"
    using set_cand_then [of ?A "cand_then ?B ?C"] set_cand_then [of ?B ?C] by blast
  then show ?case
  proof (elim disjE)
    assume "(l, p) \<in> set (fst ?A)"
    from cands_dirs_origin [OF this] d show ?thesis
      unfolding from_label_def by auto
  next
    assume "(l, p) \<in> set (fst ?B)"
    then show ?thesis using d unfolding from_label_def by auto
  next
    assume "(l, p) \<in> set (fst ?C)"
    from Cons.IH [OF this] show ?thesis by simp
  qed
qed

lemma walk_yields:
  assumes "(l, p, c) \<in> set (yielded (walk n E w cd cr fl v))"
  shows "c = md5sum E p \<and> path_exists E p \<and> endswith p ''wav''
         \<and> speaker_id_is_ignored w p l = Inr False
         \<and> (cr \<longrightarrow> fst (read_wavfile E p) \<noteq> None)
         \<and> l \<in> set (dict_keys (label_definitions w)) \<and> from_label E w fl l p"
proof -
  from assms have "(l, p, c) \<in> set (fst (process E w cd cr (fst (examined n E w fl)) init_state))"
    by (simp add: yielded_def walk_replay yielded_replay)
  from process_yields [OF this]
  have a: "(l, p) \<in> set (fst (examined n E w fl))" and b: "c = md5sum E p" "path_exists E p"
    "list_ex (endswith p) file_extensions" "speaker_id_is_ignored w p l = Inr False"
    "cr \<longrightarrow> fst (read_wavfile E p) \<noteq> None"
    by simp_all
  from a have "l \<in> set (sort (dict_keys (label_definitions w))) \<and> from_label E w fl l p"
    unfolding examined_def by (rule cands_labels_origin)
  with b show ?thesis by (simp add: file_extensions_def)
qed

lemma and_then_cases:
  assumes "and_then r k = (ys, st', s)"
  obtains (continued) ys1 st1 ys2 where "r = (ys1, st1, Finished)" "k st1 = (ys2, st', s)" "ys = ys1 @ ys2"
        | (halted) "r = (ys, st', s)" "s \<noteq> Finished"
proof -
  obtain ys1 st1 s1 where r: "r = (ys1, st1, s1)" by (cases r rule: prod_cases3)
  show ?thesis
  proof (cases s1)
    case Finished
    obtain ys2 st2 s2 where k: "k st1 = (ys2, st2, s2)" by (cases "k st1" rule: prod_cases3)
    from assms r Finished k have "ys = ys1 @ ys2" "st' = st2" "s = s2" by simp_all
    with r Finished k show ?thesis by (intro continued [of ys1 st1 ys2]) simp_all
  next
    case (Raised e)
    with assms r have "r = (ys, st', s)" "s \<noteq> Finished" by auto
    then show ?thesis by (rule halted)
  next
    case OutOfFuel
    with assms r have "r = (ys, st', s)" "s \<noteq> Finished" by auto
    then show ?thesis by (rule halted)
  qed
qed

lemma check_and_yield_state:
  assumes "check_and_yield E w cd cr l p st = (ys, st', s)"
  shows "invalid_files st' = invalid_files st @ (if unreadable E cr p then [p] else [])"
    and "duplicates st' h =
           duplicates st h @ (if hashed E cd cr p \<and> md5sum E p = h then [p] else [])"
    and "num_walked st' = num_walked st"
  using assms
  by (auto simp: check_and_yield_def audiofile_ok_def Let_def unreadable_def hashed_def
           split: if_splits sum.splits bool.splits)

lemma process_state:
  assumes "process E w cd cr cs st = (ys, st', Finished)"
  shows "invalid_files st' = invalid_files st @ filter (unreadable E cr) (map snd cs)
       \<and> duplicates st' h =
           duplicates st h @ filter (\<lambda>p. hashed E cd cr p \<and> md5sum E p = h) (map snd cs)
       \<and> num_walked st' = num_walked st + length cs"
  using assms
proof (induction cs arbitrary: st ys)
  case Nil
  then show ?case by simp
next
  case (Cons a cs)
  obtain l p where a: "a = (l, p)" by (cases a)
  let ?st0 = "st\<lparr>num_walked := num_walked st + 1\<rparr>"
  from Cons.prems a
  have "and_then (check_and_yield E w cd cr l p ?st0) (process E w cd cr cs) = (ys, st', Finished)"
    by simp
  then show ?case
  proof (cases rule: and_then_cases)
    case (continued ys1 st1 ys2)
    note s1 = check_and_yield_state [OF continued(1)]
    from Cons.IH [OF continued(2)] s1(1) s1(2) [of h] s1(3) a
    show ?thesis by simp
  next
    case halted
    then show ?thesis by simp
  qed
qed

lemma check_and_yield_first:
  assumes "check_and_yield E w True cr l p st = (ys, st', s)" and "first_of_hash st ys0"
  shows "first_of_hash st' (ys0 @ ys)"
proof -
  have keep: "duplicates st' c \<noteq> [] \<and> hd (duplicates st' c) = q"
    if "duplicates st c \<noteq> []" "hd (duplicates st c) = q" for c q
    using check_and_yield_state(2) [OF assms(1), of c] that by simp
  have old: "\<forall>(l, q, c) \<in> set ys0. duplicates st' c \<noteq> [] \<and> hd (duplicates st' c) = q"
    using assms(2) keep unfolding first_of_hash_def by fast
  show ?thesis
  proof (cases ys)
    case Nil
    with old assms(2) show ?thesis unfolding first_of_hash_def by simp
  next
    case (Cons y ys')
    from assms(1) Cons have y: "ys = [(l, p, md5sum E p)]"
      and empty: "duplicates st (md5sum E p) = []"
      and new: "duplicates st' (md5sum E p) = [p]"
      by (auto simp: check_and_yield_def audiofile_ok_def Let_def
               split: if_splits sum.splits bool.splits)
    from empty assms(2) have fresh: "md5sum E p \<notin> set (map (\<lambda>(l, p, c). c) ys0)"
      unfolding first_of_hash_def by auto
    from old new fresh assms(2) y show ?thesis
      unfolding first_of_hash_def by simp
  qed
qed

lemma process_first:
  assumes "process E w True cr cs st = (ys, st', s)" and "first_of_hash st ys0"
  shows "first_of_hash st' (ys0 @ ys)"
  using assms
proof (induction cs arbitrary: st ys ys0)
  case Nil
  then show ?case by simp
next
  case (Cons a cs)
  obtain l p where a: "a = (l, p)" by (cases a)
  let ?st0 = "st\<lparr>num_walked := num_walked st + 1\<rparr>"
  have f0: "first_of_hash ?st0 ys0" using Cons.prems(2) by (simp add: first_of_hash_def)
  from Cons.prems(1) a
  have "and_then (check_and_yield E w True cr l p ?st0) (process E w True cr cs) = (ys, st', s)"
    by simp
  then show ?case
  proof (cases rule: and_then_cases)
    case (continued ys1 st1 ys2)
    from check_and_yield_first [OF continued(1) f0]
    have "first_of_hash st1 (ys0 @ ys1)" .
    from Cons.IH [OF continued(2) this] continued(3) show ?thesis by simp
  next
    case halted
    from check_and_yield_first [OF halted(1) f0] show ?thesis .
  qed
qed

lemma replay_result:
  assumes "replay E w cd cr c st = (ys, st', s)"
  shows "\<exists>s0. process E w cd cr (fst c) st = (ys, st', s0) \<and> (s0 = Finished \<or> s0 = s)
              \<and> (s = Finished \<longrightarrow> s0 = Finished)"
proof -
  from assms have "and_then (process E w cd cr (fst c) st) (\<lambda>st'. ([], st', snd c)) = (ys, st', s)"
    by (simp add: replay_def)
  then show ?thesis
    by (cases rule: and_then_cases) auto
qed

lemma walk_process:
  "\<exists>s. process E w cd cr (fst (examined n E w fl)) init_state =
         (yielded (walk n E w cd cr fl v), final_state (walk n E w cd cr fl v), s)
       \<and> (stopped (walk n E w cd cr fl v) = Finished \<longrightarrow> s = Finished)"
proof -
  obtain ys st' s where r: "walk n E w cd cr fl v = (ys, st', s)"
    by (cases "walk n E w cd cr fl v" rule: prod_cases3)
  then have "replay E w cd cr (examined n E w fl) init_state = (ys, st', s)"
    by (simp add: walk_replay)
  from replay_result [OF this] r show ?thesis
    by (auto simp: yielded_def final_state_def stopped_def)
qed

lemma first_of_hash_init: "first_of_hash init_state []"
  by (simp add: first_of_hash_def)

lemma process_unchanged:
  assumes "process E w cd cr cs st = (ys, st', s)"
  shows "(\<not> cd \<longrightarrow> duplicates st' = duplicates st) \<and> (\<not> cr \<longrightarrow> invalid_files st' = invalid_files st)"
  using assms
proof (induction cs arbitrary: st ys)
  case Nil
  then show ?case by simp
next
  case (Cons a cs)
  obtain l p where a: "a = (l, p)" by (cases a)
  let ?st0 = "st\<lparr>num_walked := num_walked st + 1\<rparr>"
  have step: "(\<not> cd \<longrightarrow> duplicates st1 = duplicates st) \<and> (\<not> cr \<longrightarrow> invalid_files st1 = invalid_files st)"
    if "check_and_yield E w cd cr l p ?st0 = (ys1, st1, s1)" for ys1 st1 s1
    using check_and_yield_state(1) [OF that] check_and_yield_state(2) [OF that]
    by (auto simp: unreadable_def hashed_def)
  from Cons.prems a
  have "and_then (check_and_yield E w cd cr l p ?st0) (process E w cd cr cs) = (ys, st', s)"
    by simp
  then show ?case
  proof (cases rule: and_then_cases)
    case (continued ys1 st1 ys2)
    from Cons.IH [OF continued(2)] step [OF continued(1)] show ?thesis by simp
  next
    case halted
    from step [OF halted(1)] show ?thesis .
  qed
qed

lemma audiofile_ok_no_read:
  "audiofile_ok (E\<lparr>read_wavfile := rw\<rparr>) w cd False st p l = audiofile_ok E w cd False st p l"
  by (simp add: audiofile_ok_def)

lemma check_and_yield_no_read:
  "check_and_yield (E\<lparr>read_wavfile := rw\<rparr>) w cd False l p = check_and_yield E w cd False l p"
  by (rule ext) (simp add: check_and_yield_def audiofile_ok_no_read split: prod.splits sum.splits)

lemma process_no_read:
  "process (E\<lparr>read_wavfile := rw\<rparr>) w cd False cs = process E w cd False cs"
proof (induction cs)
  case Nil
  show ?case by (rule ext) simp
next
  case (Cons a cs)
  show ?case by (rule ext, cases a) (simp add: Cons check_and_yield_no_read)
qed

lemma cands_entries_no_read:
  "cands_entries n (E\<lparr>read_wavfile := rw\<rparr>) w fl label sample_dir i seen =
   cands_entries n E w fl label sample_dir i seen"
  by (induction n arbitrary: i seen) (simp_all split: option.splits)

lemma cands_dirs_no_read:
  "cands_dirs n (E\<lparr>read_wavfile := rw\<rparr>) w fl label ds = cands_dirs n E w fl label ds"
  by (induction ds) (simp_all add: cands_entries_no_read)

lemma cands_labels_no_read:
  "cands_labels n (E\<lparr>read_wavfile := rw\<rparr>) w fl ls = cands_labels n E w fl ls"
  by (induction ls) (simp_all add: cands_dirs_no_read split: option.splits)

lemma walk_no_read:
  "walk n (E\<lparr>read_wavfile := rw\<rparr>) w cd False fl v = walk n E w cd False fl v"
  by (simp add: walk_replay replay_def examined_def cands_labels_no_read process_no_read)

lemma process_no_checks:
  assumes "process E w False False cs st = (ys, st', Finished)"
  shows "ys = map (\<lambda>(l, p). (l, p, md5sum E p))
               (filter (\<lambda>(l, p). path_exists E p \<and> speaker_id_is_ignored w p l = Inr False
                                  \<and> endswith p ''wav'') cs)"
  using assms
proof (induction cs arbitrary: st ys)
  case Nil
  then show ?case by simp
next
  case (Cons a cs)
  obtain l p where a: "a = (l, p)" by (cases a)
  let ?st0 = "st\<lparr>num_walked := num_walked st + 1\<rparr>"
  from Cons.prems a
  have "and_then (check_and_yield E w False False l p ?st0) (process E w False False cs)
          = (ys, st', Finished)"
    by simp
  then show ?case
  proof (cases rule: and_then_cases)
    case (continued ys1 st1 ys2)
    from continued(1)
    have "ys1 = (if path_exists E p \<and> speaker_id_is_ignored w p l = Inr False
                    \<and> endswith p ''wav'' then [(l, p, md5sum E p)] else [])"
      by (auto simp: check_and_yield_def audiofile_ok_def file_extensions_def Let_def
               split: if_splits sum.splits bool.splits)
    with Cons.IH [OF continued(2)] continued(3) a show ?thesis by simp
  next
    case halted
    then show ?thesis by simp
  qed
qed

lemma join_all_root:
  "dataset_root w = Some r \<Longrightarrow> join_all w pathss = Inr (map (path_join r) pathss)"
  by (induction pathss) (simp_all add: join_root_def)

lemma parse_tree_defs_lookup:
  assumes "dataset_root w = Some r" and "parse_tree_defs w tree defs = Inr defs'"
    and "map_of defs' l = Some d'"
  shows "\<exists>d pathss. map_of defs l = Some d \<and> map_of tree l = Some pathss
           \<and> d' = d\<lparr>sample_dirs := Some (map (path_join r) pathss)\<rparr>"
  using assms(2,3)
proof (induction defs arbitrary: defs')
  case Nil
  then show ?case by simp
next
  case (Cons a defs)
  obtain label defn where a: "a = (label, defn)" by (cases a)
  from Cons.prems(1) a obtain pathss rest' where
    t: "map_of tree label = Some pathss" and
    rest: "parse_tree_defs w tree defs = Inr rest'" and
    defs': "defs' = (label, defn\<lparr>sample_dirs := Some (map (path_join r) pathss)\<rparr>) # rest'"
    by (auto simp: join_all_root [OF assms(1)] split: option.splits sum.splits)
  show ?case
  proof (cases "l = label")
    case True
    with Cons.prems(2) defs' a t show ?thesis by simp
  next
    case False
    with Cons.prems(2) defs' have "map_of rest' l = Some d'" by simp
    from Cons.IH [OF rest this] False a show ?thesis by simp
  qed
qed

lemma tree_walker_init_root:
  assumes "tree_walker_init tree defs parse (Some r) paths labels checksums sf = Inr w"
  shows "dataset_root w = Some r"
    and "\<exists>w1. dataset_root w1 = Some r \<and> parse_tree_defs w1 tree defs = Inr (label_definitions w)"
proof -
  let ?w1 = "\<lparr> dataset_root = Some r, sample_frequency = sf, label_definitions = defs,
               ignored_speaker_ids_by_label = Map.empty, parse_speaker_id = parse,
               dataset_tree = Some tree \<rparr>"
  from assms have none: "paths = None" "labels = None" "checksums = None"
    by (auto simp: tree_walker_init_def SpeechDatasetWalker_init_def split: if_splits)
  with assms have r: "r \<noteq> []"
    by (auto simp: tree_walker_init_def SpeechDatasetWalker_init_def split: if_splits)
  with assms none have p: "parse_directory_tree ?w1 = Inr w"
    by (simp add: tree_walker_init_def SpeechDatasetWalker_init_def)
  then obtain defs' where d: "parse_tree_defs ?w1 tree defs = Inr defs'"
    and w: "w = ?w1\<lparr>label_definitions := defs'\<rparr>"
    by (auto simp: parse_directory_tree_def split: sum.splits)
  from w show "dataset_root w = Some r" by simp
  from d w have "dataset_root ?w1 = Some r \<and> parse_tree_defs ?w1 tree defs = Inr (label_definitions w)"
    by simp
  then show "\<exists>w1. dataset_root w1 = Some r \<and> parse_tree_defs w1 tree defs = Inr (label_definitions w)"
    by (rule exI)
qed





lemma yielded_path_origin:
  assumes "(l, p, c) \<in> set (yielded (walk n E w cd cr fl v))"
  shows "from_label E w fl l p
       \<and> (tree_walker_init tree defs parse (Some r) paths labels checksums sf = Inr w \<longrightarrow>
            (\<exists>d pathss. map_of defs l = Some d \<and> map_of tree l = Some pathss
               \<and> (p \<in> set (get_or_empty (sample_files d))
                  \<or> (\<exists>paths \<in> set pathss. \<exists>j parent dirs files f.
                        os_walk E (path_join r paths) fl j = Some (parent, dirs, files)
                        \<and> f \<in> set files \<and> p = path_join r [parent, f]))))"
proof
  from walk_yields [OF assms] show origin: "from_label E w fl l p" by simp
  show "tree_walker_init tree defs parse (Some r) paths labels checksums sf = Inr w \<longrightarrow>
            (\<exists>d pathss. map_of defs l = Some d \<and> map_of tree l = Some pathss
               \<and> (p \<in> set (get_or_empty (sample_files d))
                  \<or> (\<exists>paths \<in> set pathss. \<exists>j parent dirs files f.
                        os_walk E (path_join r paths) fl j = Some (parent, dirs, files)
                        \<and> f \<in> set files \<and> p = path_join r [parent, f])))"
  proof
    assume init: "tree_walker_init tree defs parse (Some r) paths labels checksums sf = Inr w"
    note root = tree_walker_init_root [OF init]
    from root(2) obtain w1 where w1: "dataset_root w1 = Some r"
      "parse_tree_defs w1 tree defs = Inr (label_definitions w)" by blast
    from origin obtain d' where d': "map_of (label_definitions w) l = Some d'"
      and src: "p \<in> set (get_or_empty (sample_files d')) \<or>
           (\<exists>sample_dir \<in> set (get_or_empty (sample_dirs d')).
              \<exists>r' j parent dirs files f. dataset_root w = Some r'
                \<and> os_walk E sample_dir fl j = Some (parent, dirs, files) \<and> f \<in> set files
                \<and> p = path_join r' [parent, f])"
      unfolding from_label_def by blast
    from parse_tree_defs_lookup [OF w1 d'] obtain d pathss where
      d: "map_of defs l = Some d" and t: "map_of tree l = Some pathss"
      and eq: "d' = d\<lparr>sample_dirs := Some (map (path_join r) pathss)\<rparr>" by blast
    from src show "\<exists>d pathss. map_of defs l = Some d \<and> map_of tree l = Some pathss
               \<and> (p \<in> set (get_or_empty (sample_files d))
                  \<or> (\<exists>paths \<in> set pathss. \<exists>j parent dirs files f.
                        os_walk E (path_join r paths) fl j = Some (parent, dirs, files)
                        \<and> f \<in> set files \<and> p = path_join r [parent, f]))"
    proof
      assume "p \<in> set (get_or_empty (sample_files d'))"
      with eq d t show ?thesis by auto
    next
      assume "\<exists>sample_dir \<in> set (get_or_empty (sample_dirs d')).
              \<exists>r' j parent dirs files f. dataset_root w = Some r'
                \<and> os_walk E sample_dir fl j = Some (parent, dirs, files) \<and> f \<in> set files
                \<and> p = path_join r' [parent, f]"
      then obtain sample_dir j parent dirs files f where
        sd: "sample_dir \<in> set (get_or_empty (sample_dirs d'))"
        and e: "os_walk E sample_dir fl j = Some (parent, dirs, files)" "f \<in> set files"
          "p = path_join r [parent, f]"
        using root(1) by auto
      from sd eq obtain paths where "paths \<in> set pathss" "sample_dir = path_join r paths"
        by (auto simp: get_or_empty_def)
      with e d t show ?thesis by blast
    qed
  qed
qed


lemma map_fst_dict_update: "map fst (dict_update k v d) = map fst d"
  by (induction d) (auto simp: dict_update_def)

lemma set_dict_update:
  "(k', v') \<in> set (dict_update k v d) \<Longrightarrow> (k' = k \<and> v' = v) \<or> (k' \<noteq> k \<and> (k', v') \<in> set d)"
  by (auto simp: dict_update_def split: if_splits)

lemma counter_incr_keys:
  assumes "distinct (map fst c)"
  shows "distinct (map fst (counter_incr k c)) \<and> set (map fst (counter_incr k c)) = insert k (set (map fst c))"
proof (cases "map_of c k")
  case None
  then have "k \<notin> set (map fst c)" by (simp add: map_of_eq_None_iff)
  with assms None show ?thesis by (simp add: counter_incr_def)
next
  case (Some v)
  then have "k \<in> set (map fst c)" by (metis map_of_eq_None_iff option.distinct(1) set_map)
  with assms Some show ?thesis by (auto simp: counter_incr_def map_fst_dict_update)
qed

lemma speaker_ids_append:
  "speaker_ids w (xs @ ys) l = speaker_ids w xs l @ speaker_ids w ys l"
  by (induction xs) auto

lemma speakers_of_append:
  "speakers_of w (xs @ ys) l = speakers_of w xs l \<union> speakers_of w ys l"
  by (simp add: speakers_of_def speaker_ids_append)

lemma speakers_of_single:
  "parse_speaker_id w p = Inr s \<Longrightarrow>
     speakers_of w [(l', p, c)] l = (if l' = l then {s} else {})"
  unfolding speakers_of_def by (cases "l' = l") simp_all

lemma count_loop_ok:
  assumes "counts_ok w K seen c"
    and "\<forall>(l, p, x) \<in> set ys. l \<in> set K \<and> (\<exists>s. parse_speaker_id w p = Inr s)"
  shows "\<exists>c'. count_loop w ys c = Inr c' \<and> counts_ok w K (seen @ ys) c'"
  using assms
proof (induction ys arbitrary: c seen)
  case Nil
  then show ?case by simp
next
  case (Cons y ys)
  obtain l p x where y: "y = (l, p, x)" by (cases y)
  from Cons.prems(2) y obtain s where l: "l \<in> set K" and s: "parse_speaker_id w p = Inr s"
    by auto
  from Cons.prems(1) have keys: "map fst c = K"
    and inv: "\<forall>(l, cnt) \<in> set c. distinct (map fst cnt) \<and> set (map fst cnt) = speakers_of w seen l"
    by (simp_all add: counts_ok_def)
  from l keys obtain cnt where cnt: "map_of c l = Some cnt"
    by (metis map_of_eq_None_iff not_Some_eq set_map)
  then have mem: "(l, cnt) \<in> set c" by (rule map_of_SomeD)
  with inv have d: "distinct (map fst cnt)" and e: "set (map fst cnt) = speakers_of w seen l"
    by fast+
  let ?c1 = "dict_update l (counter_incr s cnt) c"
  have "counts_ok w K (seen @ [y]) ?c1"
    unfolding counts_ok_def
  proof (intro conjI ballI)
    show "map fst ?c1 = K" by (simp add: map_fst_dict_update keys)
  next
    fix a assume a: "a \<in> set ?c1"
    obtain l' cnt' where a': "a = (l', cnt')" by (cases a)
    from set_dict_update a a' have
      "(l' = l \<and> cnt' = counter_incr s cnt) \<or> (l' \<noteq> l \<and> (l', cnt') \<in> set c)" by metis
    then have "distinct (map fst cnt') \<and> set (map fst cnt') = speakers_of w (seen @ [y]) l'"
    proof
      assume h: "l' = l \<and> cnt' = counter_incr s cnt"
      with counter_incr_keys [OF d, of s] e y s show ?thesis
        by (simp add: speakers_of_append speakers_of_single)
    next
      assume h: "l' \<noteq> l \<and> (l', cnt') \<in> set c"
      with inv have "distinct (map fst cnt') \<and> set (map fst cnt') = speakers_of w seen l'"
        by fast
      with h y s show ?thesis by (auto simp add: speakers_of_append speakers_of_single)
    qed
    with a' show "case a of (l, cnt) \<Rightarrow>
         distinct (map fst cnt) \<and> set (map fst cnt) = speakers_of w (seen @ [y]) l"
      by simp
  qed
  moreover from Cons.prems(2) have
    "\<forall>(l, p, x) \<in> set ys. l \<in> set K \<and> (\<exists>s. parse_speaker_id w p = Inr s)" by simp
  ultimately obtain c' where "count_loop w ys ?c1 = Inr c'" "counts_ok w K ((seen @ [y]) @ ys) c'"
    using Cons.IH by blast
  with y s cnt show ?case by simp
qed

lemma counts_ok_init: "counts_ok w K [] (map (\<lambda>label. (label, [])) K)"
  by (auto simp: counts_ok_def speakers_of_def comp_def)

lemma count_files_result:
  assumes "stopped (iter n E w) = Finished"
    and "\<forall>(l, p, c) \<in> set (yielded (iter n E w)). \<exists>s. parse_speaker_id w p = Inr s"
  shows "\<exists>c. count_files_per_speaker_by_label n E w = Some (Inr c)
           \<and> counts_ok w (dict_keys (label_definitions w)) (yielded (iter n E w)) c"
proof -
  let ?K = "dict_keys (label_definitions w)"
  have "\<forall>(l, p, x) \<in> set (yielded (iter n E w)). l \<in> set ?K \<and> (\<exists>s. parse_speaker_id w p = Inr s)"
  proof (intro ballI)
    fix y assume y: "y \<in> set (yielded (iter n E w))"
    obtain l p x where y': "y = (l, p, x)" by (cases y)
    with y have "(l, p, x) \<in> set (yielded (walk n E w False False True 0))"
      by (simp add: iter_def)
    from walk_yields [OF this] have "l \<in> set ?K" by simp
    with assms(2) y y' show "case y of (l, p, x) \<Rightarrow> l \<in> set ?K \<and> (\<exists>s. parse_speaker_id w p = Inr s)"
      by auto
  qed
  from count_loop_ok [OF counts_ok_init this]
  obtain c where "count_loop w (yielded (iter n E w)) (map (\<lambda>label. (label, [])) ?K) = Inr c"
    "counts_ok w ?K (yielded (iter n E w)) c" by auto
  with assms(1) show ?thesis by (simp add: count_files_per_speaker_by_label_def)
qed

lemma demo_walker_parse: "parse_speaker_id demo_walker = OGI_parse_speaker_id"
  by (simp add: demo_walker_def OGIWalker_init_def tree_walker_init_def
        SpeechDatasetWalker_init_def parse_directory_tree_def OGI_dataset_tree_def
        OGI_label_definitions_def join_root_def)

lemma loop_dir_Suc: "loop_dir (Suc i) = loop_dir i @ ''/loop''"
proof -
  have "replicate (Suc i) ''/loop'' = replicate i ''/loop'' @ [''/loop'']"
    by (simp add: replicate_append_same)
  then show ?thesis unfolding loop_dir_def by (simp only: concat_append concat.simps append_Nil2 append_assoc)
qed

lemma length_loop_dir: "length (loop_dir i) = 13 + 5 * i"
  by (induction i) (simp_all add: loop_dir_Suc, simp add: loop_dir_def)

lemma loop_dir_absolute: "startswith (loop_dir i) ''/''"
  by (simp add: loop_dir_def startswith_def)

lemma loop_dir_no_slash: "\<not> endswith (loop_dir i) ''/''"
  by (cases i) (simp_all add: loop_dir_Suc endswith_def, simp add: loop_dir_def)

lemma loop_dir_join: "path_join ''/data'' [loop_dir i] = loop_dir i"
  by (simp add: path_join_def join_step_def loop_dir_absolute)

lemma loop_file_join: "path_join ''/data'' [loop_dir i, ''a.wav''] = loop_dir i @ ''/a.wav''"
  using loop_dir_no_slash [of i]
  by (simp add: path_join_def join_step_def loop_dir_absolute) (simp add: startswith_def loop_dir_def)

lemma loop_cands_entries:
  assumes "dataset_root w = Some ''/data''" and "i \<le> Suc d" and "Suc d - i < n"
    and "\<forall>s \<in> seen. length s < length (loop_dir i)"
  shows "cands_entries n (loop_env d) w True label ''/data/chinese'' i seen =
           (map (\<lambda>k. (label, loop_dir k @ ''/a.wav'')) [i..<Suc d], Finished)"
  using assms(2-4)
proof (induction n arbitrary: i seen)
  case 0
  then show ?case by simp
next
  case (Suc n)
  show ?case
  proof (cases "i = Suc d")
    case True
    then show ?thesis by (simp add: loop_env_def)
  next
    case False
    with Suc.prems have i: "i \<le> d" by simp
    have fresh: "loop_dir i \<notin> seen" using Suc.prems(3) by auto
    have "\<forall>s \<in> insert (loop_dir i) seen. length s < length (loop_dir (Suc i))"
      using Suc.prems(3) by (auto simp: length_loop_dir)
    with Suc.IH [of "Suc i" "insert (loop_dir i) seen"] Suc.prems i
    have rest: "cands_entries n (loop_env d) w True label ''/data/chinese'' (Suc i)
                  (insert (loop_dir i) seen) =
                (map (\<lambda>k. (label, loop_dir k @ ''/a.wav'')) [Suc i..<Suc d], Finished)"
      by simp
    have e: "os_walk (loop_env d) ''/data/chinese'' True i = Some (loop_dir i, [''loop''], [''a.wav''])"
      using i by (simp add: loop_env_def)
    have u: "[i..<Suc d] = i # [Suc i..<Suc d]" using i by (simp add: upt_conv_Cons)
    show ?thesis
      using assms(1) fresh
      by (simp only: cands_entries.simps e option.case prod.case loop_dir_join if_False rest
            cand_then_def status.case list.map loop_file_join u append_Cons append_Nil)
  qed
qed

lemma other_cands_entries:
  "sample_dir \<noteq> ''/data/chinese'' \<Longrightarrow>
     cands_entries (Suc n) (loop_env d) w fl label sample_dir 0 {} = ([], Finished)"
  by (simp add: loop_env_def)

lemma loop_walker_fields:
  "dataset_root loop_walker = Some ''/data''"
  "ignored_speaker_ids_by_label loop_walker = Map.empty"
  "label_definitions loop_walker =
     [(''cmn'', (named ''Mandarin (China)'')\<lparr>sample_dirs := Some [''/data/chinese'']\<rparr>),
      (''eng'', (named ''English'')\<lparr>sample_dirs := Some [''/data/english'']\<rparr>),
      (''fas'', (named ''Persian'')\<lparr>sample_dirs := Some [''/data/persian'']\<rparr>),
      (''fra'', (named ''French'')\<lparr>sample_dirs := Some [''/data/french'']\<rparr>),
      (''swe'', (named ''Swedish'')\<lparr>sample_dirs := Some [''/data/swedish'']\<rparr>)]"
  by (simp_all add: loop_walker_def TestWalker_init_def tree_walker_init_def
        SpeechDatasetWalker_init_def parse_directory_tree_def Test_dataset_tree_def
        Test_label_definitions_def join_root_def path_join_def join_step_def startswith_def
        endswith_def)

lemma loop_walker_labels:
  "sort (dict_keys (label_definitions loop_walker)) = [''cmn'', ''eng'', ''fas'', ''fra'', ''swe'']"
  by code_simp

lemma loop_examined:
  "examined (Suc (Suc d)) (loop_env d) loop_walker True =
     (map (\<lambda>k. (''cmn'', loop_dir k @ ''/a.wav'')) [0..<Suc d], Finished)"
proof -
  have c: "cands_entries (Suc (Suc d)) (loop_env d) loop_walker True ''cmn'' ''/data/chinese'' 0 {} =
           (map (\<lambda>k. (''cmn'', loop_dir k @ ''/a.wav'')) [0..<Suc d], Finished)"
    by (rule loop_cands_entries) (simp_all add: loop_walker_fields)
  show ?thesis
    unfolding examined_def loop_walker_labels
    by (simp add: loop_walker_fields named_def get_or_empty_def c other_cands_entries
          cand_then_def del: cands_entries.simps upt_Suc)
qed

lemma process_finishes:
  assumes "ignored_speaker_ids_by_label w = Map.empty"
  shows "snd (snd (process E w cd cr cs st)) = Finished"
proof (induction cs arbitrary: st)
  case Nil
  show ?case by simp
next
  case (Cons a cs)
  obtain l p where a: "a = (l, p)" by (cases a)
  let ?st0 = "st\<lparr>num_walked := num_walked st + 1\<rparr>"
  obtain ys1 st1 where "check_and_yield E w cd cr l p ?st0 = (ys1, st1, Finished)"
    using assms
    by (cases "check_and_yield E w cd cr l p ?st0" rule: prod_cases3)
       (auto simp: check_and_yield_def audiofile_ok_def speaker_id_is_ignored_def Let_def
             split: if_splits)
  with Cons.IH [of st1] a show ?case
    by (cases "process E w cd cr cs st1" rule: prod_cases3) simp
qed

lemma endswith_append: "endswith (xs @ ys) ys"
  by (simp add: endswith_def)

lemma loop_process:
  assumes "ignored_speaker_ids_by_label w = Map.empty"
  shows "fst (process (loop_env d) w False cr (map (\<lambda>k. (l, loop_dir k @ ''/a.wav'')) ks) st) =
           map (\<lambda>k. (l, loop_dir k @ ''/a.wav'', ''h'')) ks"
proof (induction ks arbitrary: st)
  case Nil
  show ?case by simp
next
  case (Cons k ks)
  let ?st0 = "st\<lparr>num_walked := num_walked st + 1\<rparr>"
  have "endswith (loop_dir k @ ''/a.wav'') ''wav''"
    using endswith_append [of "loop_dir k @ ''/a.''" "''wav''"] by simp
  then have "check_and_yield (loop_env d) w False cr l (loop_dir k @ ''/a.wav'') ?st0 =
          ([(l, loop_dir k @ ''/a.wav'', ''h'')], ?st0, Finished)"
    using assms
    by (simp add: check_and_yield_def audiofile_ok_def speaker_id_is_ignored_def
          file_extensions_def loop_env_def)
  with Cons.IH [of ?st0] show ?case
    by (cases "process (loop_env d) w False cr (map (\<lambda>k. (l, loop_dir k @ ''/a.wav'')) ks) ?st0"
          rule: prod_cases3) simp
qed

lemma process_not_out_of_fuel: "snd (snd (process E w cd cr cs st)) \<noteq> OutOfFuel"
proof (induction cs arbitrary: st)
  case Nil
  show ?case by simp
next
  case (Cons a cs)
  obtain l p where a: "a = (l, p)" by (cases a)
  let ?st0 = "st\<lparr>num_walked := num_walked st + 1\<rparr>"
  obtain ys1 st1 s1 where c: "check_and_yield E w cd cr l p ?st0 = (ys1, st1, s1)"
    by (cases "check_and_yield E w cd cr l p ?st0" rule: prod_cases3)
  then have s1: "s1 \<noteq> OutOfFuel"
    by (auto simp: check_and_yield_def split: prod.splits sum.splits)
  show ?case
  proof (cases s1)
    case Finished
    with Cons.IH [of st1] a c show ?thesis
      by (cases "process E w cd cr cs st1" rule: prod_cases3) simp
  next
    case (Raised e)
    with a c show ?thesis by simp
  next
    case OutOfFuel
    with s1 show ?thesis by simp
  qed
qed

lemma repeated_path_raises:
  assumes "dataset_root w = Some r"
    and "k \<le> j"
    and "\<forall>m. k \<le> m \<and> m \<le> j \<longrightarrow> os_walk E sample_dir fl m \<noteq> None"
    and "os_walk E sample_dir fl j = Some (pj, dj, fj)"
    and "path_join r [pj] \<in> seen \<or>
         (\<exists>i pi di fi. k \<le> i \<and> i < j \<and> os_walk E sample_dir fl i = Some (pi, di, fi)
            \<and> path_join r [pi] = path_join r [pj])"
    and "j - k < n"
  shows "\<exists>e. stopped (walk_entries n E w cd cr fl label sample_dir k seen st) = Raised e"
  using assms(2-6)
proof (induction n arbitrary: k seen st)
  case 0
  then show ?case by simp
next
  case (Suc n)
  from Suc.prems(1,2) obtain pk dk fk where e: "os_walk E sample_dir fl k = Some (pk, dk, fk)"
    by (metis le_refl not_Some_eq prod_cases3)
  show ?case
  proof (cases "path_join r [pk] \<in> seen")
    case True
    with e assms(1) show ?thesis by (simp add: stopped_def join_root_def)
  next
    case False
    have kj: "k < j"
    proof (rule ccontr)
      assume "\<not> k < j"
      with Suc.prems(1) have "k = j" by simp
      with e Suc.prems(3,4) False show False by auto
    qed
    obtain ys1 st1 s1 where f: "walk_files E w cd cr label pk fk st = (ys1, st1, s1)"
      by (cases "walk_files E w cd cr label pk fk st" rule: prod_cases3)
    have s1: "s1 \<noteq> OutOfFuel"
      using process_not_out_of_fuel [of E w cd cr "map (\<lambda>f. (label, path_join r [pk, f])) fk" st] f
      by (simp add: walk_files_replay [OF assms(1)])
    show ?thesis
    proof (cases s1)
      case Finished
      have "path_join r [pj] \<in> insert (path_join r [pk]) seen \<or>
         (\<exists>i pi di fi. Suc k \<le> i \<and> i < j \<and> os_walk E sample_dir fl i = Some (pi, di, fi)
            \<and> path_join r [pi] = path_join r [pj])"
      proof (cases "path_join r [pj] \<in> seen")
        case True
        then show ?thesis by simp
      next
        case False
        with Suc.prems(4) obtain i pi di fi where i: "k \<le> i" "i < j"
          "os_walk E sample_dir fl i = Some (pi, di, fi)" "path_join r [pi] = path_join r [pj]"
          by blast
        show ?thesis
        proof (cases "i = k")
          case True
          with i e show ?thesis by simp
        next
          case False
          with i have "Suc k \<le> i" by simp
          with i show ?thesis by blast
        qed
      qed
      moreover have "Suc k \<le> j" using kj by simp
      moreover have "\<forall>m. Suc k \<le> m \<and> m \<le> j \<longrightarrow> os_walk E sample_dir fl m \<noteq> None"
        using Suc.prems(2) by simp
      moreover have "j - Suc k < n" using Suc.prems(5) kj by simp
      ultimately obtain err where
        "stopped (walk_entries n E w cd cr fl label sample_dir (Suc k)
                    (insert (path_join r [pk]) seen) st1) = Raised err"
        using Suc.IH [of "Suc k" "insert (path_join r [pk]) seen" st1] Suc.prems(3) by blast
      with e assms(1) False f Finished show ?thesis
        by (cases "walk_entries n E w cd cr fl label sample_dir (Suc k)
                     (insert (path_join r [pk]) seen) st1" rule: prod_cases3)
           (simp add: stopped_def join_root_def)
    next
      case (Raised err)
      with e assms(1) False f show ?thesis by (simp add: stopped_def join_root_def)
    next
      case OutOfFuel
      with s1 show ?thesis by simp
    qed
  qed
qed

lemma process_prefix_state:
  assumes "process E w cd cr cs st = (ys, st', s)"
  shows "num_walked st \<le> num_walked st'
       \<and> num_walked st' - num_walked st \<le> length cs
       \<and> (s = Finished \<longrightarrow> num_walked st' - num_walked st = length cs)
       \<and> invalid_files st' =
           invalid_files st @
             filter (unreadable E cr) (map snd (take (num_walked st' - num_walked st) cs))
       \<and> duplicates st' h =
           duplicates st h @
             filter (\<lambda>p. hashed E cd cr p \<and> md5sum E p = h)
               (map snd (take (num_walked st' - num_walked st) cs))"
  using assms
proof (induction cs arbitrary: st ys)
  case Nil
  then show ?case by simp
next
  case (Cons a cs)
  obtain l p where a: "a = (l, p)" by (cases a)
  let ?st0 = "st\<lparr>num_walked := num_walked st + 1\<rparr>"
  from Cons.prems a
  have "and_then (check_and_yield E w cd cr l p ?st0) (process E w cd cr cs) = (ys, st', s)"
    by simp
  then show ?case
  proof (cases rule: and_then_cases)
    case (continued ys1 st1 ys2)
    note s1 = check_and_yield_state [OF continued(1)]
    from s1(3) have n1: "num_walked st1 = Suc (num_walked st)" by simp
    from Cons.IH [OF continued(2)] have
      le: "num_walked st1 \<le> num_walked st'"
      and len: "num_walked st' - num_walked st1 \<le> length cs"
      and fin: "s = Finished \<longrightarrow> num_walked st' - num_walked st1 = length cs"
      and inv: "invalid_files st' = invalid_files st1 @
             filter (unreadable E cr) (map snd (take (num_walked st' - num_walked st1) cs))"
      and dup: "duplicates st' h = duplicates st1 h @
             filter (\<lambda>p. hashed E cd cr p \<and> md5sum E p = h)
               (map snd (take (num_walked st' - num_walked st1) cs))"
      by simp_all
    from le n1 have k: "num_walked st' - num_walked st = Suc (num_walked st' - num_walked st1)"
      by simp
    show ?thesis
      unfolding k a using le len fin inv dup n1 s1(1) s1(2) [of h] by simp
  next
    case halted
    note s1 = check_and_yield_state [OF halted(1)]
    from s1(3) have k: "num_walked st' - num_walked st = Suc 0" by simp
    show ?thesis
      unfolding k a using halted(2) s1(1) s1(2) [of h] s1(3) by simp
  qed
qed

lemma walk_prefix_state:
  "num_walked (final_state (walk n E w cd cr fl v)) \<le> length (fst (examined n E w fl))
   \<and> (stopped (walk n E w cd cr fl v) = Finished \<longrightarrow>
        num_walked (final_state (walk n E w cd cr fl v)) = length (fst (examined n E w fl)))
   \<and> invalid_files (final_state (walk n E w cd cr fl v)) =
       filter (unreadable E cr)
         (map snd (take (num_walked (final_state (walk n E w cd cr fl v)))
                     (fst (examined n E w fl))))
   \<and> duplicates (final_state (walk n E w cd cr fl v)) h =
       filter (\<lambda>p. hashed E cd cr p \<and> md5sum E p = h)
         (map snd (take (num_walked (final_state (walk n E w cd cr fl v)))
                     (fst (examined n E w fl))))"
proof -
  let ?r = "walk n E w cd cr fl v"
  from walk_process [of E w cd cr n fl v] obtain s where
    p: "process E w cd cr (fst (examined n E w fl)) init_state = (yielded ?r, final_state ?r, s)"
    and fin: "stopped ?r = Finished \<longrightarrow> s = Finished" by blast
  from process_prefix_state [OF p, of h] fin show ?thesis
    by (simp add: init_state_def)
qed

lemma cand_then_status:
  "snd (cand_then c k) = (if snd c = Finished then snd k else snd c)"
  by (cases c; rename_tac cs s; case_tac s; cases k) (simp_all add: cand_then_def)

lemma cand_then_eq:
  "c' = c \<Longrightarrow> (snd c = Finished \<Longrightarrow> k' = k) \<Longrightarrow> cand_then c' k' = cand_then c k"
  by (cases c; rename_tac cs s; case_tac s) (simp_all add: cand_then_def)

lemma cands_entries_fuel:
  assumes "snd (cands_entries n E w fl label sample_dir i seen) \<noteq> OutOfFuel" and "n \<le> m"
  shows "cands_entries m E w fl label sample_dir i seen =
         cands_entries n E w fl label sample_dir i seen"
  using assms
proof (induction n arbitrary: m i seen)
  case 0
  then show ?case by simp
next
  case (Suc n)
  from Suc.prems(2) obtain m' where m: "m = Suc m'" and le: "n \<le> m'"
    by (cases m) simp_all
  show ?case
  proof (cases "os_walk E sample_dir fl i")
    case None
    then show ?thesis by (simp add: m)
  next
    case (Some entry)
    obtain parent dirs files where entry: "entry = (parent, dirs, files)" by (cases entry)
    show ?thesis
    proof (cases "dataset_root w")
      case None
      with Some entry show ?thesis by (simp add: m)
    next
      case root: (Some r)
      show ?thesis
      proof (cases "path_join r [parent] \<in> seen")
        case True
        with Some entry root show ?thesis by (simp add: m)
      next
        case False
        let ?rest = "\<lambda>k. cands_entries k E w fl label sample_dir (Suc i)
                           (insert (path_join r [parent]) seen)"
        from Suc.prems(1) Some entry root False have "snd (?rest n) \<noteq> OutOfFuel"
          by (simp add: cand_then_status)
        from Suc.IH [OF this le] have "?rest m' = ?rest n" .
        with Some entry root False show ?thesis by (simp add: m)
      qed
    qed
  qed
qed

lemma cands_dirs_fuel:
  assumes "snd (cands_dirs n E w fl label ds) \<noteq> OutOfFuel" and "n \<le> m"
  shows "cands_dirs m E w fl label ds = cands_dirs n E w fl label ds"
  using assms(1)
proof (induction ds)
  case Nil
  show ?case by simp
next
  case (Cons d ds)
  let ?e = "\<lambda>k. cands_entries k E w fl label d 0 {}"
  from Cons.prems have e: "snd (?e n) \<noteq> OutOfFuel"
    by (auto simp: cand_then_status split: if_splits)
  have e': "?e m = ?e n" using e assms(2) by (rule cands_entries_fuel)
  have "cands_dirs m E w fl label ds = cands_dirs n E w fl label ds" if "snd (?e n) = Finished"
    using Cons.prems that by (intro Cons.IH) (simp add: cand_then_status)
  with e' have "cand_then (?e m) (cands_dirs m E w fl label ds) =
                cand_then (?e n) (cands_dirs n E w fl label ds)"
    by (intro cand_then_eq)
  then show ?case by simp
qed

lemma cands_labels_fuel:
  assumes "snd (cands_labels n E w fl ls) \<noteq> OutOfFuel" and "n \<le> m"
  shows "cands_labels m E w fl ls = cands_labels n E w fl ls"
  using assms(1)
proof (induction ls)
  case Nil
  show ?case by simp
next
  case (Cons l ls)
  show ?case
  proof (cases "map_of (label_definitions w) l")
    case None
    then show ?thesis by simp
  next
    case (Some d)
    let ?d = "\<lambda>k. cands_dirs k E w fl l (get_or_empty (sample_dirs d))"
    let ?f = "(map (\<lambda>p. (l, p)) (get_or_empty (sample_files d)), Finished)"
    from Cons.prems Some have dn: "snd (?d n) \<noteq> OutOfFuel"
      by (auto simp: cand_then_status split: if_splits)
    have d': "?d m = ?d n" using dn assms(2) by (rule cands_dirs_fuel)
    have "cands_labels m E w fl ls = cands_labels n E w fl ls" if "snd (?d n) = Finished"
      using Cons.prems Some that by (intro Cons.IH) (simp add: cand_then_status)
    then have inner:
      "cand_then ?f (cands_labels m E w fl ls) = cand_then ?f (cands_labels n E w fl ls)"
      if "snd (?d n) = Finished" using that by simp
    have "cand_then (?d m) (cand_then ?f (cands_labels m E w fl ls)) =
          cand_then (?d n) (cand_then ?f (cands_labels n E w fl ls))"
      using d' inner by (rule cand_then_eq)
    with Some show ?thesis by simp
  qed
qed

lemma replay_Finished_status:
  assumes "snd (snd (replay E w cd cr c st)) = Finished"
  shows "snd c = Finished"
proof -
  obtain ys st' where "replay E w cd cr c st = (ys, st', Finished)"
    using assms by (cases "replay E w cd cr c st" rule: prod_cases3) simp
  then have "and_then (process E w cd cr (fst c) st) (\<lambda>st'. ([], st', snd c)) = (ys, st', Finished)"
    by (simp add: replay_def)
  then show ?thesis by (cases rule: and_then_cases) auto
qed

lemma walk_fuel:
  assumes "stopped (walk n E w cd cr fl v) = Finished" and "n \<le> m"
  shows "walk m E w cd cr fl v = walk n E w cd cr fl v"
proof -
  from assms(1) have "snd (examined n E w fl) = Finished"
    by (intro replay_Finished_status [of E w cd cr _ init_state]) (simp add: stopped_def walk_replay)
  then have "snd (cands_labels n E w fl (sort (dict_keys (label_definitions w)))) \<noteq> OutOfFuel"
    by (simp add: examined_def)
  from cands_labels_fuel [OF this assms(2)] show ?thesis
    by (simp add: walk_replay examined_def)
qed

lemma cands_entries_ends:
  assumes "os_walk E sample_dir fl j = None" and "i \<le> j" and "j - i < n"
  shows "snd (cands_entries n E w fl label sample_dir i seen) \<noteq> OutOfFuel"
  using assms(2,3)
proof (induction n arbitrary: i seen)
  case 0
  then show ?case by simp
next
  case (Suc n)
  show ?case
  proof (cases "os_walk E sample_dir fl i")
    case None
    then show ?thesis by simp
  next
    case (Some entry)
    obtain parent dirs files where entry: "entry = (parent, dirs, files)" by (cases entry)
    from Some assms(1) have "i \<noteq> j" by auto
    with Suc.prems have "Suc i \<le> j" "j - Suc i < n" by simp_all
    from Suc.IH [OF this] Some entry show ?thesis
      by (simp add: cand_then_status split: option.splits)
  qed
qed

lemma cands_dirs_ends:
  assumes "\<forall>sample_dir \<in> set ds. \<exists>j<n. os_walk E sample_dir fl j = None"
  shows "snd (cands_dirs n E w fl label ds) \<noteq> OutOfFuel"
  using assms
proof (induction ds)
  case Nil
  show ?case by simp
next
  case (Cons d ds)
  then obtain j where "j < n" "os_walk E d fl j = None" by auto
  then have "snd (cands_entries n E w fl label d 0 {}) \<noteq> OutOfFuel"
    by (intro cands_entries_ends [of E d fl j]) simp_all
  with Cons show ?case by (simp add: cand_then_status)
qed

lemma cands_labels_ends:
  assumes "\<forall>l d. map_of (label_definitions w) l = Some d \<longrightarrow>
             (\<forall>sample_dir \<in> set (get_or_empty (sample_dirs d)).
                \<exists>j<n. os_walk E sample_dir fl j = None)"
  shows "snd (cands_labels n E w fl ls) \<noteq> OutOfFuel"
proof (induction ls)
  case Nil
  show ?case by simp
next
  case (Cons l ls)
  show ?case
  proof (cases "map_of (label_definitions w) l")
    case None
    then show ?thesis by simp
  next
    case (Some d)
    with assms have "\<forall>sample_dir \<in> set (get_or_empty (sample_dirs d)).
                \<exists>j<n. os_walk E sample_dir fl j = None" by blast
    then have "snd (cands_dirs n E w fl l (get_or_empty (sample_dirs d))) \<noteq> OutOfFuel"
      by (rule cands_dirs_ends)
    with Cons Some show ?thesis by (simp add: cand_then_status)
  qed
qed

lemma walk_ends:
  assumes "\<forall>l d. map_of (label_definitions w) l = Some d \<longrightarrow>
             (\<forall>sample_dir \<in> set (get_or_empty (sample_dirs d)).
                \<exists>j<n. os_walk E sample_dir fl j = None)"
  shows "stopped (walk n E w cd cr fl v) \<noteq> OutOfFuel"
proof -
  let ?c = "examined n E w fl"
  have c: "snd ?c \<noteq> OutOfFuel"
    unfolding examined_def using assms by (rule cands_labels_ends)
  obtain ys st s where p: "process E w cd cr (fst ?c) init_state = (ys, st, s)"
    by (cases "process E w cd cr (fst ?c) init_state" rule: prod_cases3)
  with process_not_out_of_fuel [of E w cd cr "fst ?c" init_state] have "s \<noteq> OutOfFuel" by simp
  with p c show ?thesis
    by (cases s) (simp_all add: stopped_def walk_replay replay_def)
qed

lemma absolute_parent_join:
  "startswith parent ''/'' \<Longrightarrow> path_join r [parent, f] = path_join parent [f]"
  by (simp add: path_join_def join_step_def)

section \<open>A symbolic link back to an ancestor\<close>

text \<open>
  Claim C1. The walk compares the paths that \<^verbatim>\<open>os.walk\<close> produces as strings. When a
  directory holds a symbolic link to itself, \<^verbatim>\<open>os.walk\<close> with \<^verbatim>\<open>followlinks\<close> produces
  the same directory again under a longer path each time it follows the link, and no two of
  these paths are equal. On such a corpus the walk, under every combination of
  \<^verbatim>\<open>check_duplicates\<close> and \<^verbatim>\<open>check_read\<close>, does not raise \<open>DatasetRecursionError\<close>: it
  finishes, having examined the one file of the directory once for every time the link was
  followed, and without \<^verbatim>\<open>check_duplicates\<close> it yields the file that many times.
\<close>

theorem symlink_loop_traversed_again:
  "stopped (walk (d + 2) (loop_env d) loop_walker cd cr True v) = Finished
   \<and> fst (examined (d + 2) (loop_env d) loop_walker True) =
       map (\<lambda>k. (''cmn'', loop_dir k @ ''/a.wav'')) [0..<Suc d]
   \<and> yielded (walk (d + 2) (loop_env d) loop_walker False cr True v) =
       map (\<lambda>k. (''cmn'', loop_dir k @ ''/a.wav'', ''h'')) [0..<Suc d]"
proof -
  have a: "stopped (walk (d + 2) (loop_env d) loop_walker cd cr True v) = Finished"
    using process_finishes [OF loop_walker_fields(2), of "loop_env d" cd cr
            "map (\<lambda>k. (''cmn'', loop_dir k @ ''/a.wav'')) [0..<Suc d]" init_state]
    by (cases "process (loop_env d) loop_walker cd cr
                 (map (\<lambda>k. (''cmn'', loop_dir k @ ''/a.wav'')) [0..<Suc d]) init_state"
          rule: prod_cases3)
       (simp add: stopped_def walk_replay loop_examined del: upt_Suc)
  have b: "yielded (walk (d + 2) (loop_env d) loop_walker False cr True v) =
       map (\<lambda>k. (''cmn'', loop_dir k @ ''/a.wav'', ''h'')) [0..<Suc d]"
    using loop_process [OF loop_walker_fields(2), of d cr "''cmn''" "[0..<Suc d]" init_state]
    by (simp add: yielded_def walk_replay loop_examined del: upt_Suc)
  from a b loop_examined [of d] show ?thesis by simp
qed

section \<open>Duplicate detection by content hash\<close>

text \<open>
  Claim C2, as amended. In a walk with \<^verbatim>\<open>check_duplicates\<close> an MD5 hash is recorded for
  every examined path that exists and, when \<^verbatim>\<open>check_read\<close> is set, can be read: however
  the walk stops, the paths recorded under a hash \<open>h\<close> are, in the order of the walk, those
  among the paths examined until then that pass these two checks and have the hash \<open>h\<close>;
  the counter \<^verbatim>\<open>num_walked\<close> is the number of paths examined, all of them when the walk
  finishes. A yielded triple carries the MD5 hash of its path, and its path is the first
  one recorded under that hash, so every later file with that hash was skipped. No two
  yielded triples have the same checksum.
\<close>

theorem duplicates_skipped:
  "distinct (map (\<lambda>(l, p, c). c) (yielded (walk n E w True cr fl v)))
   \<and> ((l, p, c) \<in> set (yielded (walk n E w True cr fl v)) \<longrightarrow>
        c = md5sum E p
        \<and> duplicates (final_state (walk n E w True cr fl v)) c \<noteq> []
        \<and> hd (duplicates (final_state (walk n E w True cr fl v)) c) = p)
   \<and> duplicates (final_state (walk n E w True cr fl v)) h =
        filter (\<lambda>q. path_exists E q \<and> (cr \<longrightarrow> fst (read_wavfile E q) \<noteq> None)
                     \<and> md5sum E q = h)
          (map snd (take (num_walked (final_state (walk n E w True cr fl v)))
                      (fst (examined n E w fl))))
   \<and> num_walked (final_state (walk n E w True cr fl v)) \<le> length (fst (examined n E w fl))
   \<and> (stopped (walk n E w True cr fl v) = Finished \<longrightarrow>
        num_walked (final_state (walk n E w True cr fl v)) = length (fst (examined n E w fl)))"
proof -
  let ?r = "walk n E w True cr fl v"
  from walk_process [of E w True cr n fl v] obtain s where
    p: "process E w True cr (fst (examined n E w fl)) init_state = (yielded ?r, final_state ?r, s)"
    by blast
  from process_first [OF p first_of_hash_init]
  have f: "first_of_hash (final_state ?r) (yielded ?r)" by simp
  have a: "distinct (map (\<lambda>(l, p, c). c) (yielded ?r))"
    using f by (simp add: first_of_hash_def)
  have b: "(l, p, c) \<in> set (yielded ?r) \<longrightarrow>
        c = md5sum E p \<and> duplicates (final_state ?r) c \<noteq> []
        \<and> hd (duplicates (final_state ?r) c) = p"
  proof
    assume m: "(l, p, c) \<in> set (yielded ?r)"
    from walk_yields [OF m] have "c = md5sum E p" by simp
    moreover from f m
    have "duplicates (final_state ?r) c \<noteq> [] \<and> hd (duplicates (final_state ?r) c) = p"
      unfolding first_of_hash_def by fast
    ultimately show "c = md5sum E p \<and> duplicates (final_state ?r) c \<noteq> []
        \<and> hd (duplicates (final_state ?r) c) = p" by simp
  qed
  from a b walk_prefix_state [of n E w True cr fl v h] show ?thesis
    by (simp add: hashed_def)
qed

theorem duplicates_skipped_witness:
  "(''eng'', ''/data/wav/english/EN001call.wav'', ''h1'')
     \<in> set (yielded (walk 2 demo_env demo_walker True False True 0))
   \<and> stopped (walk 2 demo_env demo_walker True False True 0) = Finished
   \<and> distinct (map (\<lambda>(l, p, c). c) (yielded (walk 2 demo_env demo_walker True False True 0)))
   \<and> hd (duplicates (final_state (walk 2 demo_env demo_walker True False True 0)) ''h1'')
       = ''/data/wav/english/EN001call.wav''
   \<and> num_walked (final_state (walk 2 demo_env demo_walker True False True 0))
       = length (fst (examined 2 demo_env demo_walker True))
   \<and> (''eng'', ''/data/wav/english/EN001copy.wav'', ''h1'')
     \<notin> set (yielded (walk 2 demo_env demo_walker True False True 0))"
proof -
  let ?r = "walk 2 demo_env demo_walker True False True 0"
  have m: "(''eng'', ''/data/wav/english/EN001call.wav'', ''h1'') \<in> set (yielded ?r)"
    by code_simp
  have f: "stopped ?r = Finished" by code_simp
  have n: "(''eng'', ''/data/wav/english/EN001copy.wav'', ''h1'') \<notin> set (yielded ?r)"
    by code_simp
  from duplicates_skipped [of 2 demo_env demo_walker False True 0 "''eng''"
         "''/data/wav/english/EN001call.wav''" "''h1''" "''h1''"] m f n
  show ?thesis by blast
qed

text \<open>
  As the claim C2 was stated, a hash is computed for every examined file, and a file is
  skipped once a file with its hash has been examined. On the corpus with faults, under
  \<^verbatim>\<open>check_duplicates\<close> and \<^verbatim>\<open>check_read\<close>, the walk examines \<^verbatim>\<open>bad.wav\<close> first and
  rejects it at the read check, before the hashing: no hash is recorded for it, and
  \<^verbatim>\<open>ok.wav\<close>, examined later with the same hash, is yielded.
\<close>

theorem unreadable_file_not_hashed:
  "fst (examined 2 faulty_env test_walker True) =
     [(''cmn'', ''/data/chinese/bad.wav''), (''cmn'', ''/data/chinese/gone.wav''),
      (''cmn'', ''/data/chinese/ok.wav'')]
   \<and> md5sum faulty_env ''/data/chinese/bad.wav'' = ''h''
   \<and> md5sum faulty_env ''/data/chinese/ok.wav'' = ''h''
   \<and> stopped (walk 2 faulty_env test_walker True True True 0) = Finished
   \<and> duplicates (final_state (walk 2 faulty_env test_walker True True True 0)) ''h'' =
       [''/data/chinese/ok.wav'']
   \<and> yielded (walk 2 faulty_env test_walker True True True 0) =
       [(''cmn'', ''/data/chinese/ok.wav'', ''h'')]"
  by code_simp

section \<open>Speaker filtering by set membership\<close>



section \<open>Validation of the audio content\<close>

text \<open>
  Claim C4, as amended. In a walk with \<^verbatim>\<open>check_read\<close>, no yielded path is one for which
  \<^verbatim>\<open>read_wavfile\<close> returns \<^verbatim>\<open>None\<close>, and however the walk stops, its list of invalid
  files holds, in the order of the walk, exactly those among the paths examined until then
  that exist and for which \<^verbatim>\<open>read_wavfile\<close> returns \<^verbatim>\<open>None\<close>; the counter
  \<^verbatim>\<open>num_walked\<close> is the number of paths examined, all of them when the walk finishes. A
  path that does not exist is rejected before the read and is not recorded. Without
  \<^verbatim>\<open>check_read\<close> the walk does not depend on \<^verbatim>\<open>read_wavfile\<close> at all, and its list of
  invalid files stays empty.
\<close>

theorem check_read_rejects_unreadable:
  "((l, p, c) \<in> set (yielded (walk n E w cd True fl v)) \<longrightarrow> fst (read_wavfile E p) \<noteq> None)
   \<and> invalid_files (final_state (walk n E w cd True fl v)) =
        filter (\<lambda>q. path_exists E q \<and> fst (read_wavfile E q) = None)
          (map snd (take (num_walked (final_state (walk n E w cd True fl v)))
                      (fst (examined n E w fl))))
   \<and> num_walked (final_state (walk n E w cd True fl v)) \<le> length (fst (examined n E w fl))
   \<and> (stopped (walk n E w cd True fl v) = Finished \<longrightarrow>
        num_walked (final_state (walk n E w cd True fl v)) = length (fst (examined n E w fl)))
   \<and> walk n (E\<lparr>read_wavfile := rw\<rparr>) w cd False fl v = walk n E w cd False fl v
   \<and> invalid_files (final_state (walk n E w cd False fl v)) = []"
proof -
  let ?r = "walk n E w cd True fl v"
  have a: "(l, p, c) \<in> set (yielded ?r) \<longrightarrow> fst (read_wavfile E p) \<noteq> None"
    using walk_yields [of l p c n E w cd True fl v] by blast
  let ?r' = "walk n E w cd False fl v"
  from walk_process [of E w cd False n fl v] obtain s' where
    "process E w cd False (fst (examined n E w fl)) init_state = (yielded ?r', final_state ?r', s')"
    by blast
  from process_unchanged [OF this] have d: "invalid_files (final_state ?r') = []"
    by (simp add: init_state_def)
  from a d walk_no_read walk_prefix_state [of n E w cd True fl v undefined] show ?thesis
    by (simp add: unreadable_def [abs_def])
qed

theorem check_read_rejects_unreadable_witness:
  "(''eng'', ''/data/wav/english/EN002call.wav'', ''h2'')
     \<in> set (yielded (walk 3 demo_env demo_walker False True True 0))
   \<and> stopped (walk 3 demo_env demo_walker False True True 0) = Finished
   \<and> fst (read_wavfile demo_env ''/data/wav/english/EN002call.wav'') \<noteq> None
   \<and> num_walked (final_state (walk 3 demo_env demo_walker False True True 0))
       = length (fst (examined 3 demo_env demo_walker True))
   \<and> invalid_files (final_state (walk 3 demo_env demo_walker False True True 0))
       = [''/data/wav/english/EN003bad.wav'']"
proof -
  let ?r = "walk 3 demo_env demo_walker False True True 0"
  have m: "(''eng'', ''/data/wav/english/EN002call.wav'', ''h2'') \<in> set (yielded ?r)"
    by code_simp
  have f: "stopped ?r = Finished" by code_simp
  have i: "invalid_files (final_state ?r) = [''/data/wav/english/EN003bad.wav'']"
    by code_simp
  from check_read_rejects_unreadable [of "''eng''" "''/data/wav/english/EN002call.wav''" "''h2''"
         3 demo_env demo_walker False True 0] m f i
  show ?thesis by simp
qed

text \<open>
  As the claim C4 was stated, every examined file is read and every one that cannot be read
  is recorded as invalid. On the corpus with faults the walk with \<^verbatim>\<open>check_read\<close> examines
  \<^verbatim>\<open>gone.wav\<close>, a link whose target is missing: the path does not exist, so it is never
  read and the finished walk has not recorded it, although it cannot be read.
\<close>

theorem missing_path_not_recorded:
  "(''cmn'', ''/data/chinese/gone.wav'') \<in> set (fst (examined 2 faulty_env test_walker True))
   \<and> \<not> path_exists faulty_env ''/data/chinese/gone.wav''
   \<and> fst (read_wavfile faulty_env ''/data/chinese/gone.wav'') = None
   \<and> stopped (walk 2 faulty_env test_walker False True True 0) = Finished
   \<and> invalid_files (final_state (walk 2 faulty_env test_walker False True True 0)) =
       [''/data/chinese/bad.wav'']"
  by code_simp

section \<open>Labels come from the directory layout\<close>

text \<open>
  Claim C5. The walk joins the dataset root onto the directories that \<^verbatim>\<open>os.walk\<close>
  produces, and these already start with the root, which \<^verbatim>\<open>parse_directory_tree\<close> has
  joined onto the sample directory. With an absolute root the second join changes nothing.
  With the relative root \<^verbatim>\<open>rel\<close> the walker of the test corpus traverses the sample
  directory \<^verbatim>\<open>rel/chinese\<close> of the label \<^verbatim>\<open>cmn\<close>, finds \<^verbatim>\<open>a.wav\<close> there, and yields
  under that label the path \<^verbatim>\<open>rel/rel/chinese/a.wav\<close> with the hash of the file that lies
  there: a file that is in no sample directory and among no sample files.
\<close>

theorem relative_root_joined_twice:
  "map_option sample_dirs (map_of (label_definitions rel_walker) ''cmn'') =
     Some (Some [''rel/chinese''])
   \<and> os_walk rel_env ''rel/chinese'' True 0 = Some (''rel/chinese'', [], [''a.wav''])
   \<and> os_walk rel_env ''rel/chinese'' True 1 = None
   \<and> path_join ''rel/chinese'' [''a.wav''] = ''rel/chinese/a.wav''
   \<and> md5sum rel_env ''rel/chinese/a.wav'' = ''found''
   \<and> stopped (walk 2 rel_env rel_walker False False True 0) = Finished
   \<and> yielded (walk 2 rel_env rel_walker False False True 0) =
       [(''cmn'', ''rel/rel/chinese/a.wav'', ''other'')]"
  by code_simp

section \<open>The checksum of a yielded triple\<close>

text \<open>
  Claim C6. The third component of every triple that a walk yields is \<^verbatim>\<open>md5sum\<close> of its
  second component, under every combination of flags.
\<close>

theorem checksum_is_md5sum:
  "(l, p, c) \<in> set (yielded (walk n E w cd cr fl v)) \<Longrightarrow> c = md5sum E p"
  using walk_yields by blast

theorem checksum_is_md5sum_witness:
  "(''eng'', ''/data/wav/english/EN001call.wav'', ''h1'')
     \<in> set (yielded (walk 2 demo_env demo_walker True True True 0))
   \<and> ''h1'' = md5sum demo_env ''/data/wav/english/EN001call.wav''"
proof -
  have m: "(''eng'', ''/data/wav/english/EN001call.wav'', ''h1'')
     \<in> set (yielded (walk 2 demo_env demo_walker True True True 0))"
    by code_simp
  from checksum_is_md5sum [OF m] m show ?thesis by simp
qed

section \<open>Speakers per label\<close>

text \<open>
  Claim C7, as amended. When the default iteration of a walker finishes, taking at most
  \<open>n\<close> items from each \<^verbatim>\<open>os.walk\<close>, and \<^verbatim>\<open>parse_speaker_id\<close> returns a speaker id for
  every yielded path, then for every bound \<open>m\<close> from \<open>n\<close> on the iteration is the same,
  \<^verbatim>\<open>speakers_per_label\<close> returns, for every label of the label definitions, the number
  of distinct speaker ids parsed from the paths yielded for that label, and
  \<^verbatim>\<open>speaker_ids_by_label\<close> returns the sorted list of these ids. By \<open>walk_ends\<close> a bound
  that every \<^verbatim>\<open>os.walk\<close> of the corpus stays below is enough for the iteration to finish
  or raise.
\<close>

theorem speakers_counted_per_label:
  assumes "stopped (iter n E w) = Finished"
    and "n \<le> m"
    and "\<forall>(l, p, c) \<in> set (yielded (iter n E w)). \<exists>s. parse_speaker_id w p = Inr s"
  shows "speakers_per_label m E w =
           Some (Inr (map (\<lambda>label. (label, card (speakers_of w (yielded (iter n E w)) label)))
                        (dict_keys (label_definitions w))))
       \<and> speaker_ids_by_label m E w =
           Some (Inr (map (\<lambda>label. (label,
                            sorted_list_of_set (speakers_of w (yielded (iter n E w)) label)))
                        (dict_keys (label_definitions w))))
       \<and> iter m E w = iter n E w"
proof -
  let ?K = "dict_keys (label_definitions w)" and ?ys = "yielded (iter n E w)"
  have fuel: "iter m E w = iter n E w"
    using assms(1,2) unfolding iter_def by (rule walk_fuel)
  from count_files_result [of m E w] assms(1,3) fuel obtain c where
    c: "count_files_per_speaker_by_label m E w = Some (Inr c)" and ok: "counts_ok w ?K ?ys c"
    by auto
  from ok have keys: "map fst c = ?K"
    and inv: "\<forall>(l, cnt) \<in> set c. distinct (map fst cnt) \<and> set (map fst cnt) = speakers_of w ?ys l"
    by (simp_all add: counts_ok_def)
  have a: "map (\<lambda>(label, files_per_speaker). (label, length files_per_speaker)) c =
           map (\<lambda>label. (label, card (speakers_of w ?ys label))) (map fst c)"
  proof (simp, intro ballI)
    fix x assume x: "x \<in> set c"
    obtain l cnt where x': "x = (l, cnt)" by (cases x)
    with x inv have "distinct (map fst cnt)" "set (map fst cnt) = speakers_of w ?ys l" by fast+
    then have "card (speakers_of w ?ys l) = length cnt"
      by (metis distinct_card length_map)
    with x' show "(case x of (label, files_per_speaker) \<Rightarrow> (label, length files_per_speaker)) =
             (fst x, card (speakers_of w ?ys (fst x)))" by simp
  qed
  have b: "map (\<lambda>(label, files_per_speaker). (label, sort (map fst files_per_speaker))) c =
           map (\<lambda>label. (label, sorted_list_of_set (speakers_of w ?ys label))) (map fst c)"
  proof (simp, intro ballI)
    fix x assume x: "x \<in> set c"
    obtain l cnt where x': "x = (l, cnt)" by (cases x)
    with x inv have "distinct (map fst cnt)" "set (map fst cnt) = speakers_of w ?ys l" by fast+
    then have "sorted_list_of_set (speakers_of w ?ys l) = sort (map fst cnt)"
      by (metis sorted_list_of_set_sort_remdups distinct_remdups_id)
    with x' show "(case x of (label, files_per_speaker) \<Rightarrow> (label, sort (map fst files_per_speaker))) =
             (fst x, sorted_list_of_set (speakers_of w ?ys (fst x)))" by simp
  qed
  from a b c keys fuel show ?thesis
    by (simp add: speakers_per_label_def speaker_ids_by_label_def)
qed

theorem speakers_counted_per_label_witness:
  "stopped (iter 2 demo_env demo_walker) = Finished
   \<and> speakers_per_label 7 demo_env demo_walker =
       Some (Inr (map (\<lambda>label. (label, card (speakers_of demo_walker
                                   (yielded (iter 2 demo_env demo_walker)) label)))
                    (dict_keys (label_definitions demo_walker))))
   \<and> speakers_per_label 7 demo_env demo_walker =
       Some (Inr [(''cmn'', 0), (''deu'', 0), (''eng'', 3), (''fas'', 0), (''fra'', 0),
                  (''hin'', 0), (''jpn'', 0), (''kor'', 0), (''spa'', 0), (''tam'', 0),
                  (''vie'', 0)])
   \<and> speaker_ids_by_label 7 demo_env demo_walker =
       Some (Inr [(''cmn'', []), (''deu'', []), (''eng'', [''EN001'', ''EN002'', ''EN003'']),
                  (''fas'', []), (''fra'', []), (''hin'', []), (''jpn'', []), (''kor'', []),
                  (''spa'', []), (''tam'', []), (''vie'', [])])"
proof -
  have f: "stopped (iter 2 demo_env demo_walker) = Finished" by code_simp
  have le: "(2::nat) \<le> 7" by simp
  have p: "\<forall>(l, p, c) \<in> set (yielded (iter 2 demo_env demo_walker)).
         \<exists>s. parse_speaker_id demo_walker p = Inr s"
    by (simp add: demo_walker_parse OGI_parse_speaker_id_def split: prod.splits)
  have v: "speakers_per_label 7 demo_env demo_walker =
       Some (Inr [(''cmn'', 0), (''deu'', 0), (''eng'', 3), (''fas'', 0), (''fra'', 0),
                  (''hin'', 0), (''jpn'', 0), (''kor'', 0), (''spa'', 0), (''tam'', 0),
                  (''vie'', 0)])" by code_simp
  have i: "speaker_ids_by_label 7 demo_env demo_walker =
       Some (Inr [(''cmn'', []), (''deu'', []), (''eng'', [''EN001'', ''EN002'', ''EN003'']),
                  (''fas'', []), (''fra'', []), (''hin'', []), (''jpn'', []), (''kor'', []),
                  (''spa'', []), (''tam'', []), (''vie'', [])])" by code_simp
  from speakers_counted_per_label [OF f le p] f v i show ?thesis by blast
qed

text \<open>
  As the claim C7 was stated, the two functions return their dicts for every walker that
  implements \<^verbatim>\<open>parse_speaker_id\<close>. The legacy OGI walker implements it, and on a corpus
  that holds a file whose name lacks \<^verbatim>\<open>call-\<close> its default iteration finishes and yields
  that file, but both functions raise \<open>IndexError\<close>. With a speaker filter on the label
  the iteration itself raises at that file, after it has yielded only a path whose speaker
  id can be parsed, and \<^verbatim>\<open>speakers_per_label\<close> raises with it.
\<close>

theorem malformed_name_raises:
  "stopped (iter 2 legacy_env legacy_walker) = Finished
   \<and> yielded (iter 2 legacy_env legacy_walker) =
       [(''eng'', ''/data/cd01/speech/english/ENcall-12-G.story.wav'', ''h1''),
        (''eng'', ''/data/cd01/speech/english/notes.wav'', ''h2'')]
   \<and> parse_speaker_id legacy_walker ''/data/cd01/speech/english/notes.wav'' = Inl IndexError
   \<and> speakers_per_label 2 legacy_env legacy_walker = Some (Inl IndexError)
   \<and> speaker_ids_by_label 2 legacy_env legacy_walker = Some (Inl IndexError)
   \<and> stopped (iter 2 legacy_env (set_speaker_filter legacy_walker [''eng'' \<mapsto> [''12'']])) =
       Raised IndexError
   \<and> yielded (iter 2 legacy_env (set_speaker_filter legacy_walker [''eng'' \<mapsto> [''12'']])) =
       [(''eng'', ''/data/cd01/speech/english/ENcall-12-G.story.wav'', ''h1'')]
   \<and> parse_speaker_id legacy_walker ''/data/cd01/speech/english/ENcall-12-G.story.wav'' =
       Inr ''12''
   \<and> speakers_per_label 2 legacy_env (set_speaker_filter legacy_walker [''eng'' \<mapsto> [''12'']]) =
       Some (Inl IndexError)"
  by code_simp

section \<open>Default iteration\<close>

text \<open>
  Claim C8. Iterating a walker is the walk with the default arguments. It records no
  content hash and no invalid file, it does not depend on \<^verbatim>\<open>read_wavfile\<close>, and when it
  finishes it has yielded, in order, every examined path that exists, is not rejected by
  the speaker filter and ends with \<^verbatim>\<open>wav\<close>.
\<close>

theorem iter_is_default_walk:
  "iter n E w = walk n E w False False True 0
   \<and> duplicates (final_state (iter n E w)) = (\<lambda>h. [])
   \<and> invalid_files (final_state (iter n E w)) = []
   \<and> iter n (E\<lparr>read_wavfile := rw\<rparr>) w = iter n E w
   \<and> (stopped (iter n E w) = Finished \<longrightarrow>
        yielded (iter n E w) =
          map (\<lambda>(l, p). (l, p, md5sum E p))
            (filter (\<lambda>(l, p). path_exists E p \<and> speaker_id_is_ignored w p l = Inr False
                               \<and> endswith p ''wav'')
               (fst (examined n E w True))))"
proof -
  let ?r = "walk n E w False False True 0"
  from walk_process [of E w False False n True 0] obtain s where
    p: "process E w False False (fst (examined n E w True)) init_state
          = (yielded ?r, final_state ?r, s)"
    and fin: "stopped ?r = Finished \<longrightarrow> s = Finished" by blast
  from process_unchanged [OF p]
  have a: "duplicates (final_state ?r) = (\<lambda>h. [])" "invalid_files (final_state ?r) = []"
    by (simp_all add: init_state_def)
  have b: "stopped ?r = Finished \<longrightarrow>
        yielded ?r =
          map (\<lambda>(l, p). (l, p, md5sum E p))
            (filter (\<lambda>(l, p). path_exists E p \<and> speaker_id_is_ignored w p l = Inr False
                               \<and> endswith p ''wav'')
               (fst (examined n E w True)))"
  proof
    assume "stopped ?r = Finished"
    with p fin have "process E w False False (fst (examined n E w True)) init_state
          = (yielded ?r, final_state ?r, Finished)" by simp
    then show "yielded ?r =
          map (\<lambda>(l, p). (l, p, md5sum E p))
            (filter (\<lambda>(l, p). path_exists E p \<and> speaker_id_is_ignored w p l = Inr False
                               \<and> endswith p ''wav'')
               (fst (examined n E w True)))"
      by (rule process_no_checks)
  qed
  from a b walk_no_read show ?thesis
    by (simp add: iter_def)
qed

theorem iter_is_default_walk_witness:
  "stopped (iter 2 demo_env demo_walker) = Finished
   \<and> iter 2 demo_env demo_walker = walk 2 demo_env demo_walker False False True 0
   \<and> length (yielded (iter 2 demo_env demo_walker)) = 4"
proof -
  have f: "stopped (iter 2 demo_env demo_walker) = Finished" by code_simp
  have l: "length (yielded (iter 2 demo_env demo_walker)) = 4" by code_simp
  from iter_is_default_walk [of 2 demo_env demo_walker] f l show ?thesis by simp
qed

section \<open>The extension of a yielded path\<close>

text \<open>
  Claim C9. Every path that a walk yields ends with \<^verbatim>\<open>wav\<close>, under every combination of
  flags, whether it comes from a traversed directory or from the sample files.
\<close>

theorem yielded_paths_end_with_wav:
  "(l, p, c) \<in> set (yielded (walk n E w cd cr fl v)) \<Longrightarrow> endswith p ''wav''"
  using walk_yields by blast

theorem yielded_paths_end_with_wav_witness:
  "(''eng'', ''/data/wav/english/EN002call.wav'', ''h2'')
     \<in> set (yielded (walk 1 demo_env demo_walker False False True 0))
   \<and> endswith ''/data/wav/english/EN002call.wav'' ''wav''"
proof -
  have m: "(''eng'', ''/data/wav/english/EN002call.wav'', ''h2'')
     \<in> set (yielded (walk 1 demo_env demo_walker False False True 0))"
    by code_simp
  from yielded_paths_end_with_wav [OF m] m show ?thesis by simp
qed

section \<open>The constructor accepts exactly one source of files\<close>

text \<open>
  Claim C10. The constructor creates a walker exactly when either no dataset root is given
  and paths, labels and checksums are all given and non-empty, or a dataset root is given
  and paths, labels and checksums are all \<open>None\<close>. For every other combination of arguments
  the result is \<open>AssertionError\<close> and there is no walker.
\<close>

theorem init_one_source:
  "(\<exists>w. SpeechDatasetWalker_init root paths labels checksums sf = Inr w) =
     ((root = None \<and> paths \<noteq> None \<and> paths \<noteq> Some [] \<and> labels \<noteq> None \<and> labels \<noteq> Some []
         \<and> checksums \<noteq> None \<and> checksums \<noteq> Some [])
      \<or> (root \<noteq> None \<and> paths = None \<and> labels = None \<and> checksums = None))
   \<and> ((\<nexists>w. SpeechDatasetWalker_init root paths labels checksums sf = Inr w) =
        (SpeechDatasetWalker_init root paths labels checksums sf = Inl AssertionError))"
  by (auto simp: SpeechDatasetWalker_init_def truthy_def split: option.splits)

theorem init_one_source_witness:
  "(\<exists>w. SpeechDatasetWalker_init None (Some [''a.wav'']) (Some [''eng'']) (Some [''h'']) None = Inr w)
   \<and> SpeechDatasetWalker_init (Some ''/data'') (Some [''a.wav'']) None None None = Inl AssertionError
   \<and> SpeechDatasetWalker_init None (Some []) (Some [''eng'']) (Some [''h'']) None = Inl AssertionError"
  using init_one_source [of None "Some [''a.wav'']" "Some [''eng'']" "Some [''h'']" None]
    init_one_source [of "Some ''/data''" "Some [''a.wav'']" None None None]
    init_one_source [of None "Some []" "Some [''eng'']" "Some [''h'']" None]
  by blast

end
